theory Spec2Isabelle
  imports Main
begin

section \<open>JavaScript strings\<close>

text \<open>
  A JavaScript string is a sequence of UTF-16 code units: \<^verbatim>\<open>length\<close>, indexing,
  \<^verbatim>\<open>includes\<close> and the regular expressions of \<^verbatim>\<open>App.tsx\<close> (none carries the
  \<^verbatim>\<open>u\<close> flag) all count code units. A code unit is a natural number here; a literal
  of the source that is plain ASCII is written \<open>lit ''...''\<close>.
\<close>

type_synonym jsstring = "nat list"

definition lit :: "string \<Rightarrow> jsstring" where
  "lit s = map of_char s"

fun startsWith :: "jsstring \<Rightarrow> jsstring \<Rightarrow> bool" where
  "startsWith s [] = True"
| "startsWith [] (c # cs) = False"
| "startsWith (d # ds) (c # cs) = (d = c \<and> startsWith ds cs)"

text \<open>\<^verbatim>\<open>s.includes(sub)\<close>: \<open>sub\<close> occurs in \<open>s\<close> as a contiguous substring.\<close>

fun js_includes :: "jsstring \<Rightarrow> jsstring \<Rightarrow> bool" where
  "js_includes [] sub = (sub = [])"
| "js_includes (c # cs) sub = (startsWith (c # cs) sub \<or> js_includes cs sub)"

text \<open>\<^verbatim>\<open>Number.prototype.toString()\<close> on an integer: its decimal digits.\<close>

fun toString_nat :: "nat \<Rightarrow> jsstring" where
  "toString_nat n = (if n < 10 then [48 + n] else toString_nat (n div 10) @ [48 + n mod 10])"

declare toString_nat.simps [simp del]

definition toString :: "int \<Rightarrow> jsstring" where
  "toString n = (if n < 0 then 45 # toString_nat (nat (- n)) else toString_nat (nat n))"

text \<open>\<^verbatim>\<open>s.padStart(2, '0')\<close>.\<close>

definition padStart2 :: "jsstring \<Rightarrow> jsstring" where
  "padStart2 s = (if 2 \<le> length s then s else replicate (2 - length s) 48 @ s)"

subsection \<open>Character classes of the regular expressions\<close>

definition is_digit :: "nat \<Rightarrow> bool" where   \<comment> \<open>\<^verbatim>\<open>\d\<close>\<close>
  "is_digit c = (48 \<le> c \<and> c \<le> 57)"

definition is_capital :: "nat \<Rightarrow> bool" where   \<comment> \<open>\<^verbatim>\<open>[A-Z]\<close>\<close>
  "is_capital c = (65 \<le> c \<and> c \<le> 90)"

definition is_space :: "nat \<Rightarrow> bool" where   \<comment> \<open>\<^verbatim>\<open>\s\<close>: white space and line terminators\<close>
  "is_space c = (c \<in> set [9, 10, 11, 12, 13, 32, 160, 5760, 8232, 8233, 8239, 8287, 12288, 65279]
                 \<or> (8192 \<le> c \<and> c \<le> 8202))"

text \<open>The class of rule 3: the thirty punctuation characters
  \<^verbatim>\<open>! @ # $ % ^ & * ( ) _ + - = [ ] { } ; ' : " \ | , . < > / ?\<close> by code unit.\<close>

definition is_special :: "nat \<Rightarrow> bool" where
  "is_special c = (c \<in> set [33, 64, 35, 36, 37, 94, 38, 42, 40, 41, 95, 43, 45, 61, 91, 93,
                              123, 125, 59, 39, 58, 34, 92, 124, 44, 46, 60, 62, 47, 63])"

definition is_roman :: "nat \<Rightarrow> bool" where   \<comment> \<open>\<^verbatim>\<open>[IVXLCDM]\<close>\<close>
  "is_roman c = (c \<in> set (lit ''IVXLCDM''))"

subsection \<open>Global regular-expression matching\<close>

text \<open>
  The two patterns that \<^verbatim>\<open>String.prototype.match\<close> runs with the \<^verbatim>\<open>g\<close> flag are
  sequences of character classes, each taken once, optionally (\<^verbatim>\<open>?\<close>) or one or more
  times (\<^verbatim>\<open>+\<close>). \<open>match_at\<close> is the length of the match that starts at the head of
  the string, found with JavaScript's backtracking priority (a greedy quantifier first takes
  the character, and gives it back only when the rest of the pattern fails).
\<close>

datatype atom = One "nat \<Rightarrow> bool" | Opt "nat \<Rightarrow> bool" | Plus "nat \<Rightarrow> bool"

fun match_at :: "atom list \<Rightarrow> jsstring \<Rightarrow> nat option" where
  "match_at [] s = Some 0"
| "match_at (One p # r) [] = None"
| "match_at (One p # r) (c # cs) = (if p c then map_option Suc (match_at r cs) else None)"
| "match_at (Opt p # r) [] = match_at r []"
| "match_at (Opt p # r) (c # cs) =
     (if p c
      then (case match_at r cs of Some n \<Rightarrow> Some (Suc n) | None \<Rightarrow> match_at r (c # cs))
      else match_at r (c # cs))"
| "match_at (Plus p # r) [] = None"
| "match_at (Plus p # r) (c # cs) =
     (if p c
      then (case match_at (Plus p # r) cs of
              Some n \<Rightarrow> Some (Suc n)
            | None \<Rightarrow> map_option Suc (match_at r cs))
      else None)"

text \<open>
  \<^verbatim>\<open>s.match(/pat/g)\<close>: all matches from left to right, the search resuming where the
  previous match ended (one code unit further after an empty match). The result \<^verbatim>\<open>null\<close>
  of the source is the empty list.
\<close>

function match_global :: "atom list \<Rightarrow> jsstring \<Rightarrow> jsstring list" where
  "match_global pat [] = (case match_at pat [] of Some n \<Rightarrow> [[]] | None \<Rightarrow> [])"
| "match_global pat (c # cs) =
     (case match_at pat (c # cs) of
        None \<Rightarrow> match_global pat cs
      | Some n \<Rightarrow>
          (if n = 0 then [] # match_global pat cs
           else take n (c # cs) # match_global pat (drop n (c # cs))))"
  by pat_completeness auto
termination
  by (relation "measure (\<lambda>(pat, s). length s)") auto

section \<open>The host: case mapping, time zone and clock\<close>

text \<open>
  \<^verbatim>\<open>toLowerCase\<close>, \<^verbatim>\<open>toUpperCase\<close> and the time zone of \<^verbatim>\<open>Date\<close> are the
  JavaScript engine's, not the repository's: they are parameters of the model, so every
  theorem holds whatever the engine computes. \<open>getTimezoneOffset h t\<close> is the offset in
  minutes of the local time zone at the instant \<open>t\<close> (milliseconds since the epoch).
\<close>

record host =
  toLowerCase :: "jsstring \<Rightarrow> jsstring"
  toUpperCase :: "jsstring \<Rightarrow> jsstring"
  getTimezoneOffset :: "int \<Rightarrow> int"

text \<open>\<^verbatim>\<open>Date.prototype.getHours\<close> and \<^verbatim>\<open>getMinutes\<close>: the fields of the local time.\<close>

definition getHours :: "host \<Rightarrow> int \<Rightarrow> int" where
  "getHours h t = ((t - getTimezoneOffset h t * 60000) div 3600000) mod 24"

definition getMinutes :: "host \<Rightarrow> int \<Rightarrow> int" where
  "getMinutes h t = ((t - getTimezoneOffset h t * 60000) div 60000) mod 60"

text \<open>\<open>getCurrentTimeGMT2\<close>; \<open>now\<close> is what its \<^verbatim>\<open>new Date()\<close> reads.\<close>

definition getCurrentTimeGMT2 :: "host \<Rightarrow> int \<Rightarrow> jsstring" where
  "getCurrentTimeGMT2 h now =
     (let utc = now + getTimezoneOffset h now * 60000;
          gmt2 = utc + 2 * 60 * 60 * 1000;
          hours = padStart2 (toString (getHours h gmt2));
          minutes = padStart2 (toString (getMinutes h gmt2))
      in hours @ lit '':'' @ minutes)"

text \<open>
  One call of the validator of rule 15 reads the clock twice: in \<open>getCurrentTimeGMT2\<close>,
  then in its own \<^verbatim>\<open>new Date()\<close>. A \<open>clock\<close> holds the two readings.
\<close>

type_synonym clock = "int \<times> int"

section \<open>Session context and mini-game state\<close>

record MathProblem =
  expression :: jsstring
  answer :: int

record LiveData =
  dayOfYear :: int
  dayOfWeek :: int
  zodiacSymbol :: jsstring
  moonPhase :: jsstring
  temperature :: int
  wordleWord :: jsstring
  mathProblem :: MathProblem
  chessMove :: jsstring
  chessPosition :: "(int \<times> jsstring) list"
  countryCode :: jsstring
  countryName :: jsstring
  streetViewUrl :: jsstring

record WordleState =
  guesses :: "jsstring list"
  currentGuess :: jsstring
  gameWon :: bool
  gameOver :: bool
  maxGuesses :: nat

section \<open>The rules\<close>

text \<open>
  The fields of \<^verbatim>\<open>Rule\<close> that the evaluation reads. An absent \<^verbatim>\<open>requiresLiveData\<close> is
  falsy, hence \<open>False\<close>; an absent \<^verbatim>\<open>validationFeedback\<close> is \<open>None\<close>, and the
  \<^verbatim>\<open>null\<close> it may return is \<open>None\<close> too.
\<close>

record Rule =
  rule_id :: nat
  validator :: "jsstring \<Rightarrow> bool"
  requiresLiveData :: bool
  validationFeedback :: "(jsstring \<Rightarrow> jsstring option) option"

definition rule1 :: "jsstring \<Rightarrow> bool" where
  "rule1 pwd = (length pwd \<ge> 8)"

definition rule2 :: "jsstring \<Rightarrow> bool" where
  "rule2 pwd = list_ex is_capital pwd"

definition rule3 :: "jsstring \<Rightarrow> bool" where
  "rule3 pwd = list_ex is_special pwd"

definition rule4 :: "jsstring \<Rightarrow> bool" where
  "rule4 pwd = (\<not> list_ex is_space pwd)"

definition rule5 :: "jsstring \<Rightarrow> bool" where
  "rule5 pwd = list_ex is_digit pwd"

definition months :: "jsstring list" where
  "months = map lit [''januari'', ''februari'', ''maart'', ''april'', ''mei'', ''juni'',
     ''juli'', ''augustus'', ''september'', ''oktober'', ''november'', ''december'']"

definition rule6 :: "host \<Rightarrow> jsstring \<Rightarrow> bool" where
  "rule6 h pwd = list_ex (\<lambda>month. js_includes (toLowerCase h pwd) month) months"

text \<open>\<^verbatim>\<open>parseInt\<close> of a one-character string that holds a decimal digit.\<close>

definition parseInt_digit :: "nat \<Rightarrow> int" where
  "parseInt_digit d = int d - 48"

definition rule7 :: "jsstring \<Rightarrow> bool" where
  "rule7 pwd =
     (let digits = filter is_digit pwd in
      if digits = [] then False
      else (let sum = foldl (\<lambda>acc digit. acc + parseInt_digit digit) 0 digits
            in sum = 50))"

definition rule8 :: "LiveData option \<Rightarrow> jsstring \<Rightarrow> bool" where
  "rule8 liveData pwd =
     (case liveData of Some ld \<Rightarrow> js_includes pwd (toString (dayOfYear ld)) | None \<Rightarrow> False)"

definition rule9 :: "LiveData option \<Rightarrow> jsstring \<Rightarrow> bool" where
  "rule9 liveData pwd =
     (case liveData of Some ld \<Rightarrow> js_includes pwd (toString (dayOfWeek ld)) | None \<Rightarrow> False)"

definition rule10 :: "jsstring \<Rightarrow> bool" where
  "rule10 pwd =
     (length pwd > 0
      \<and> \<not> (case pwd of [] \<Rightarrow> False | c # cs \<Rightarrow> is_digit c)
      \<and> \<not> (case rev pwd of [] \<Rightarrow> False | c # cs \<Rightarrow> is_digit c))"

definition rule11 :: "LiveData option \<Rightarrow> jsstring \<Rightarrow> bool" where
  "rule11 liveData pwd =
     (case liveData of Some ld \<Rightarrow> js_includes pwd (zodiacSymbol ld) | None \<Rightarrow> False)"

definition rule12 :: "LiveData option \<Rightarrow> jsstring \<Rightarrow> bool" where
  "rule12 liveData pwd =
     (case liveData of Some ld \<Rightarrow> js_includes pwd (moonPhase ld) | None \<Rightarrow> False)"

definition elements :: "jsstring list" where
  "elements = map lit [''He'', ''Li'', ''Be'', ''Ne'', ''Na'', ''Mg'', ''Al'', ''Si'', ''Cl'',
     ''Ar'', ''Ca'', ''Sc'', ''Ti'', ''Cr'', ''Mn'', ''Fe'', ''Co'', ''Ni'', ''Cu'', ''Zn'',
     ''Ga'', ''Ge'', ''As'', ''Se'', ''Br'', ''Kr'', ''Rb'', ''Sr'', ''Zr'', ''Nb'', ''Mo'',
     ''Tc'', ''Ru'', ''Rh'', ''Pd'', ''Ag'', ''Cd'', ''In'', ''Sn'', ''Sb'', ''Te'', ''Xe'',
     ''Cs'', ''Ba'', ''La'', ''Ce'', ''Pr'', ''Nd'', ''Pm'', ''Sm'', ''Eu'', ''Gd'', ''Tb'',
     ''Dy'', ''Ho'', ''Er'', ''Tm'', ''Yb'', ''Lu'', ''Hf'', ''Ta'', ''Re'', ''Os'', ''Ir'',
     ''Pt'', ''Au'', ''Hg'', ''Tl'', ''Pb'', ''Bi'', ''Po'', ''At'', ''Rn'', ''Fr'', ''Ra'',
     ''Ac'', ''Th'', ''Pa'', ''Np'', ''Pu'', ''Am'', ''Cm'', ''Bk'', ''Cf'', ''Es'', ''Fm'',
     ''Md'', ''No'', ''Lr'', ''Rf'', ''Db'', ''Sg'', ''Bh'', ''Hs'', ''Mt'', ''Ds'', ''Rg'',
     ''Cn'', ''Nh'', ''Fl'', ''Mc'', ''Lv'', ''Ts'', ''Og'']"

definition rule13 :: "jsstring \<Rightarrow> bool" where
  "rule13 pwd = list_ex (\<lambda>element. js_includes pwd element) elements"

subsection \<open>Rule 14: Roman numerals\<close>

text \<open>The table \<^verbatim>\<open>romanNumerals\<close>; a key that is not in it reads \<^verbatim>\<open>undefined\<close>.\<close>

definition romanNumerals :: "nat \<Rightarrow> nat option" where
  "romanNumerals c =
     (if c = 73 then Some 1          \<comment> \<open>I\<close>
      else if c = 86 then Some 5     \<comment> \<open>V\<close>
      else if c = 88 then Some 10    \<comment> \<open>X\<close>
      else if c = 76 then Some 50    \<comment> \<open>L\<close>
      else if c = 67 then Some 100   \<comment> \<open>C\<close>
      else if c = 68 then Some 500   \<comment> \<open>D\<close>
      else if c = 77 then Some 1000  \<comment> \<open>M\<close>
      else None)"

text \<open>
  The inner loop over one match, from index \<open>i\<close> with the running \<open>value\<close>. Reading
  past the end of the match gives \<^verbatim>\<open>undefined\<close>, which the test \<^verbatim>\<open>next && ...\<close>
  rejects; every table entry is nonzero, so the test otherwise only asks that \<open>next\<close>
  exists. Adding an \<^verbatim>\<open>undefined\<close> \<open>current\<close> would make the value \<^verbatim>\<open>NaN\<close> for good:
  the result \<open>None\<close>, equal to no number.
\<close>

function roman_loop :: "jsstring \<Rightarrow> nat \<Rightarrow> nat \<Rightarrow> nat option" where
  "roman_loop match i val =
     (if i < length match then
        (case romanNumerals (match ! i) of
           None \<Rightarrow> None
         | Some current \<Rightarrow>
             (case (if i + 1 < length match then romanNumerals (match ! (i + 1)) else None) of
                Some next \<Rightarrow>
                  (if current < next then roman_loop match (i + 2) (val + (next - current))
                   else roman_loop match (i + 1) (val + current))
              | None \<Rightarrow> roman_loop match (i + 1) (val + current)))
      else Some val)"
  by pat_completeness auto
termination
  by (relation "measure (\<lambda>(match, i, val). length match - i)") auto

declare roman_loop.simps [simp del]

text \<open>The outer loop over the matches returns at the first one worth 35.\<close>

fun rule14_matches :: "jsstring list \<Rightarrow> bool" where
  "rule14_matches [] = False"
| "rule14_matches (match # rest) =
     (if roman_loop match 0 0 = Some 35 then True else rule14_matches rest)"

definition rule14 :: "jsstring \<Rightarrow> bool" where
  "rule14 pwd =
     (let romanMatches = match_global [Plus is_roman] pwd in
      if romanMatches = [] then False else rule14_matches romanMatches)"

subsection \<open>Rule 15: the current time\<close>

definition rule15 :: "host \<Rightarrow> clock \<Rightarrow> jsstring \<Rightarrow> bool" where
  "rule15 h clk pwd =
     (let time = getCurrentTimeGMT2 h (fst clk);
          now = snd clk;
          utc = now + getTimezoneOffset h now * 60000;
          gmt2 = utc + 2 * 60 * 60 * 1000;
          nextMinute = gmt2 + 60000;
          nextTime = padStart2 (toString (getHours h nextMinute)) @ lit '':''
                     @ padStart2 (toString (getMinutes h nextMinute))
      in js_includes pwd time \<or> js_includes pwd nextTime)"

subsection \<open>Rules 16 to 25\<close>

definition rule16 :: "host \<Rightarrow> jsstring \<Rightarrow> bool" where
  "rule16 h pwd = js_includes (toLowerCase h pwd) (lit ''geest'')"

definition rule17 :: "host \<Rightarrow> jsstring \<Rightarrow> bool" where
  "rule17 h pwd = js_includes (toLowerCase h pwd) (lit ''tomorrowland'')"

definition colors :: "jsstring list" where
  "colors = map lit [''rood'', ''blauw'', ''groen'', ''geel'', ''oranje'', ''paars'', ''roze'',
     ''zwart'', ''wit'', ''bruin'', ''grijs'']"

definition rule18 :: "host \<Rightarrow> jsstring \<Rightarrow> bool" where
  "rule18 h pwd = list_ex (\<lambda>color. js_includes (toLowerCase h pwd) color) colors"

definition rule19 :: "jsstring \<Rightarrow> bool" where
  "rule19 pwd = js_includes pwd (lit ''64'')"

definition rule20 :: "host \<Rightarrow> jsstring \<Rightarrow> bool" where
  "rule20 h pwd = js_includes (toLowerCase h pwd) (lit ''verkeerde'')"

definition rule21 :: "host \<Rightarrow> LiveData option \<Rightarrow> jsstring \<Rightarrow> bool" where
  "rule21 h liveData pwd =
     (case liveData of
        Some ld \<Rightarrow> js_includes (toLowerCase h pwd) (toLowerCase h (countryName ld))
      | None \<Rightarrow> False)"

text \<open>
  The country names as the source file spells them. Its fourth and fifth literals end in
  the two code units U+221A and U+00B4 (the file reads \<^verbatim>\<open>belgi\<close> and \<^verbatim>\<open>itali\<close> followed by
  a square-root sign and an acute accent).
\<close>

definition countries :: "jsstring list" where
  "countries = [lit ''nederland'', lit ''duitsland'', lit ''frankrijk'',
     lit ''belgi'' @ [8730, 180], lit ''itali'' @ [8730, 180], lit ''spanje'', lit ''portugal'']"

definition feedback21 :: "host \<Rightarrow> LiveData option \<Rightarrow> jsstring \<Rightarrow> jsstring option" where
  "feedback21 h liveData pwd =
     (case liveData of
        None \<Rightarrow> None
      | Some ld \<Rightarrow>
          (let foundCountries = filter (\<lambda>country. js_includes (toLowerCase h pwd) country) countries in
           if length foundCountries > 0
              \<and> toLowerCase h (countryName ld) \<notin> set foundCountries
           then Some (hd foundCountries @ lit '' (Verkeerd land)'')
           else None))"

definition rule22 :: "LiveData option \<Rightarrow> jsstring \<Rightarrow> bool" where
  "rule22 liveData pwd =
     (case liveData of Some ld \<Rightarrow> js_includes pwd (chessMove ld) | None \<Rightarrow> False)"

text \<open>\<^verbatim>\<open>/[KQRBN]?[a-h]?[1-8]?x?[a-h][1-8][\+#]?/g\<close>\<close>

definition chessNotationPattern :: "atom list" where
  "chessNotationPattern =
     [Opt (\<lambda>c. c \<in> set (lit ''KQRBN'')),
      Opt (\<lambda>c. 97 \<le> c \<and> c \<le> 104),
      Opt (\<lambda>c. 49 \<le> c \<and> c \<le> 56),
      Opt (\<lambda>c. c = 120),
      One (\<lambda>c. 97 \<le> c \<and> c \<le> 104),
      One (\<lambda>c. 49 \<le> c \<and> c \<le> 56),
      Opt (\<lambda>c. c = 43 \<or> c = 35)]"

definition feedback22 :: "LiveData option \<Rightarrow> jsstring \<Rightarrow> jsstring option" where
  "feedback22 liveData pwd =
     (case liveData of
        None \<Rightarrow> None
      | Some ld \<Rightarrow>
          (let chessMatches = match_global chessNotationPattern pwd in
           if chessMatches \<noteq> [] \<and> length chessMatches > 0
           then (let foundMoves = filter (\<lambda>move. move \<noteq> chessMove ld) chessMatches in
                 if length foundMoves > 0
                 then Some (hd foundMoves @ lit '' (Illegale zet)'')
                 else None)
           else None))"

definition rule23 :: "LiveData option \<Rightarrow> jsstring \<Rightarrow> bool" where
  "rule23 liveData pwd =
     (case liveData of
        Some ld \<Rightarrow> js_includes pwd (toString (answer (mathProblem ld)))
      | None \<Rightarrow> False)"

definition rule24 :: "jsstring \<Rightarrow> bool" where
  "rule24 pwd =
     (let capitals = length (filter is_capital pwd);
          digits = length (filter is_digit pwd)
      in capitals = digits \<and> capitals > 0)"

text \<open>
  The loop of rule 25. Its guard \<^verbatim>\<open>i <= Math.sqrt(length)\<close> compares integers below
  \<open>2^53\<close> with a correctly rounded square root, which is the integer test
  \<open>i * i \<le> length\<close>.
\<close>

function prime_loop :: "nat \<Rightarrow> nat \<Rightarrow> bool" where
  "prime_loop len i =
     (if i * i \<le> len
      then (if len mod i = 0 then False else prime_loop len (i + 1))
      else True)"
  by pat_completeness auto
termination
proof (relation "measure (\<lambda>(len, i). Suc len - i)")
  show "wf (measure (\<lambda>(len, i). Suc len - i))" by simp
next
  fix len i :: nat
  assume "i * i \<le> len"
  moreover have "i \<le> i * i" by (cases i) simp_all
  ultimately have "i \<le> len" by linarith
  then show "((len, i + 1), (len, i)) \<in> measure (\<lambda>(len, i). Suc len - i)" by simp
qed

declare prime_loop.simps [simp del]

definition rule25 :: "jsstring \<Rightarrow> bool" where
  "rule25 pwd =
     (let len = length pwd in
      if len < 2 then False else prime_loop len 2)"

subsection \<open>The catalogue\<close>

text \<open>
  The array \<^verbatim>\<open>rules\<close> is rebuilt at every render: its validators close over the
  current \<^verbatim>\<open>liveData\<close>, and the validator of rule 15 reads the clock when it is called.
\<close>

definition rules :: "host \<Rightarrow> clock \<Rightarrow> LiveData option \<Rightarrow> Rule list" where
  "rules h clk liveData =
     [\<lparr>rule_id = 1, validator = rule1, requiresLiveData = False,
        validationFeedback = None\<rparr>,
      \<lparr>rule_id = 2, validator = rule2, requiresLiveData = False,
        validationFeedback = None\<rparr>,
      \<lparr>rule_id = 3, validator = rule3, requiresLiveData = False,
        validationFeedback = None\<rparr>,
      \<lparr>rule_id = 4, validator = rule4, requiresLiveData = False,
        validationFeedback = None\<rparr>,
      \<lparr>rule_id = 5, validator = rule5, requiresLiveData = False,
        validationFeedback = None\<rparr>,
      \<lparr>rule_id = 6, validator = rule6 h, requiresLiveData = False,
        validationFeedback = None\<rparr>,
      \<lparr>rule_id = 7, validator = rule7, requiresLiveData = False,
        validationFeedback = None\<rparr>,
      \<lparr>rule_id = 8, validator = rule8 liveData, requiresLiveData = True,
        validationFeedback = None\<rparr>,
      \<lparr>rule_id = 9, validator = rule9 liveData, requiresLiveData = True,
        validationFeedback = None\<rparr>,
      \<lparr>rule_id = 10, validator = rule10, requiresLiveData = False,
        validationFeedback = None\<rparr>,
      \<lparr>rule_id = 11, validator = rule11 liveData, requiresLiveData = True,
        validationFeedback = None\<rparr>,
      \<lparr>rule_id = 12, validator = rule12 liveData, requiresLiveData = True,
        validationFeedback = None\<rparr>,
      \<lparr>rule_id = 13, validator = rule13, requiresLiveData = False,
        validationFeedback = None\<rparr>,
      \<lparr>rule_id = 14, validator = rule14, requiresLiveData = False,
        validationFeedback = None\<rparr>,
      \<lparr>rule_id = 15, validator = rule15 h clk, requiresLiveData = False,
        validationFeedback = None\<rparr>,
      \<lparr>rule_id = 16, validator = rule16 h, requiresLiveData = False,
        validationFeedback = None\<rparr>,
      \<lparr>rule_id = 17, validator = rule17 h, requiresLiveData = False,
        validationFeedback = None\<rparr>,
      \<lparr>rule_id = 18, validator = rule18 h, requiresLiveData = False,
        validationFeedback = None\<rparr>,
      \<lparr>rule_id = 19, validator = rule19, requiresLiveData = False,
        validationFeedback = None\<rparr>,
      \<lparr>rule_id = 20, validator = rule20 h, requiresLiveData = False,
        validationFeedback = None\<rparr>,
      \<lparr>rule_id = 21, validator = rule21 h liveData, requiresLiveData = True,
        validationFeedback = Some (feedback21 h liveData)\<rparr>,
      \<lparr>rule_id = 22, validator = rule22 liveData, requiresLiveData = True,
        validationFeedback = Some (feedback22 liveData)\<rparr>,
      \<lparr>rule_id = 23, validator = rule23 liveData, requiresLiveData = True,
        validationFeedback = None\<rparr>,
      \<lparr>rule_id = 24, validator = rule24, requiresLiveData = False,
        validationFeedback = None\<rparr>,
      \<lparr>rule_id = 25, validator = rule25, requiresLiveData = False,
        validationFeedback = None\<rparr>]"

section \<open>The evaluation pass\<close>

text \<open>
  The body of \<^verbatim>\<open>rules.forEach\<close>: \<^verbatim>\<open>newCompletedRules\<close> is a set of ids and
  \<^verbatim>\<open>newValidationFeedback\<close> a map from ids to messages. A feedback is recorded when it is
  truthy: not \<^verbatim>\<open>null\<close> and not the empty string.
\<close>

definition evaluate_rule ::
  "LiveData option \<Rightarrow> jsstring \<Rightarrow> nat set \<times> (nat \<rightharpoonup> jsstring) \<Rightarrow> Rule
     \<Rightarrow> nat set \<times> (nat \<rightharpoonup> jsstring)" where
  "evaluate_rule liveData pwd acc rule =
     (if \<not> requiresLiveData rule \<or> liveData \<noteq> None then
        (if validator rule pwd then (insert (rule_id rule) (fst acc), snd acc)
         else (case validationFeedback rule of
                 None \<Rightarrow> acc
               | Some f \<Rightarrow>
                   (case f pwd of
                      None \<Rightarrow> acc
                    | Some feedback \<Rightarrow>
                        (if feedback \<noteq> [] then (fst acc, (snd acc)(rule_id rule \<mapsto> feedback))
                         else acc))))
      else acc)"

definition evaluate ::
  "Rule list \<Rightarrow> LiveData option \<Rightarrow> jsstring \<Rightarrow> nat set \<times> (nat \<rightharpoonup> jsstring)" where
  "evaluate rs liveData pwd = foldl (evaluate_rule liveData pwd) ({}, Map.empty) rs"

section \<open>Colouring a letter of a guess\<close>

text \<open>Indexing a string: \<open>None\<close> is the \<^verbatim>\<open>undefined\<close> read outside it.\<close>

definition char_at :: "jsstring \<Rightarrow> nat \<Rightarrow> nat option" where
  "char_at s i = (if i < length s then Some (s ! i) else None)"

text \<open>
  \<open>getLetterStatus\<close> returns the cell's CSS classes. Its parameter \<^verbatim>\<open>letter\<close> is never
  read and is left out. \<^verbatim>\<open>targetWord.includes(x)\<close> searches for the string of \<open>x\<close>,
  which for \<^verbatim>\<open>undefined\<close> is the nine letters of that word.
\<close>

definition getLetterStatus :: "host \<Rightarrow> LiveData option \<Rightarrow> nat \<Rightarrow> jsstring \<Rightarrow> jsstring" where
  "getLetterStatus h liveData position guess =
     (case liveData of
        None \<Rightarrow> lit ''bg-gray-300''
      | Some ld \<Rightarrow>
          (let targetWord = toUpperCase h (wordleWord ld);
               guessUpper = toUpperCase h guess
           in if char_at guessUpper position = char_at targetWord position
              then lit ''bg-green-500 text-white''
              else if js_includes targetWord
                        (case char_at guessUpper position of
                           Some c \<Rightarrow> [c] | None \<Rightarrow> lit ''undefined'')
                      \<and> (let letterCount =
                                length (filter (\<lambda>l. Some l = char_at guessUpper position) targetWord);
                              correctlyPlaced =
                                length (filter (\<lambda>i. char_at guessUpper i = char_at guessUpper position
                                                  \<and> char_at targetWord i = char_at guessUpper i)
                                          [0..<length guessUpper]);
                              appearedBefore =
                                length (filter (\<lambda>i. char_at guessUpper i = char_at guessUpper position
                                                  \<and> char_at targetWord i \<noteq> char_at guessUpper i)
                                          [0..<position])
                          in correctlyPlaced + appearedBefore < letterCount)
              then lit ''bg-yellow-500 text-white''
              else lit ''bg-gray-400 text-white''))"

section \<open>Application state\<close>

record AppState =
  password :: jsstring
  completedRules :: "nat set"
  maxVisibleRule :: nat
  showPassword :: bool
  liveData :: "LiveData option"
  isLoadingData :: bool
  gameComplete :: bool
  feedbackState :: "nat \<rightharpoonup> jsstring"   \<comment> \<open>the state \<^verbatim>\<open>validationFeedback\<close>\<close>
  wordleState :: WordleState
  wordleError :: jsstring
  wordrowCompleted :: bool

definition initialWordleState :: WordleState where
  "initialWordleState =
     \<lparr>guesses = [], currentGuess = [], gameWon = False, gameOver = False, maxGuesses = 6\<rparr>"

text \<open>The state after the \<^verbatim>\<open>useState\<close> initialisers.\<close>

definition initialState :: AppState where
  "initialState =
     \<lparr>password = [], completedRules = {}, maxVisibleRule = 0, showPassword = False,
      liveData = None, isLoadingData = True, gameComplete = False,
      feedbackState = Map.empty, wordleState = initialWordleState, wordleError = [],
      wordrowCompleted = False\<rparr>"

subsection \<open>The evaluation effect\<close>

text \<open>The \<^verbatim>\<open>for\<close> loop that finds how far the satisfied prefix reaches.\<close>

function visible_loop :: "nat set \<Rightarrow> nat \<Rightarrow> nat \<Rightarrow> nat \<Rightarrow> nat" where
  "visible_loop newCompletedRules n i newMaxVisible =
     (if i \<le> n then
        (if i \<in> newCompletedRules then visible_loop newCompletedRules n (i + 1) (i + 1)
         else newMaxVisible)
      else newMaxVisible)"
  by pat_completeness auto
termination
  by (relation "measure (\<lambda>(newCompletedRules, n, i, newMaxVisible). Suc n - i)") auto

declare visible_loop.simps [simp del]

text \<open>
  What \<^verbatim>\<open>setMaxVisibleRule\<close> receives: the new count from the previous one, the
  candidate, the satisfied ids and the number of rules.
\<close>

definition computeVisible :: "nat \<Rightarrow> jsstring \<Rightarrow> nat set \<Rightarrow> nat \<Rightarrow> nat" where
  "computeVisible prev pwd newCompletedRules n =
     (if length pwd > 0 then
        (let newMaxVisible = visible_loop newCompletedRules n 1 1;
             newMaxVisible = min newMaxVisible n
         in max prev newMaxVisible)
      else 0)"

text \<open>
  The effect on \<^verbatim>\<open>[password, liveData, wordleState.gameWon, wordrowCompleted]\<close>, run with
  the clock readings \<open>clk\<close>.
\<close>

definition evaluation_effect :: "host \<Rightarrow> clock \<Rightarrow> AppState \<Rightarrow> AppState" where
  "evaluation_effect h clk st =
     (let rs = rules h clk (liveData st);
          result = evaluate rs (liveData st) (password st);
          newCompletedRules = fst result;
          newValidationFeedback = snd result;
          st1 = st\<lparr>completedRules := newCompletedRules, feedbackState := newValidationFeedback\<rparr>;
          st2 = st1\<lparr>maxVisibleRule :=
                  computeVisible (maxVisibleRule st1) (password st) newCompletedRules (length rs)\<rparr>
      in if card newCompletedRules = length rs then st2\<lparr>gameComplete := True\<rparr> else st2)"

section \<open>The word-guessing mini-game\<close>

subsection \<open>The dictionary lookup\<close>

text \<open>
  What \<open>checkDutchWord\<close> can receive from the network. \<open>Failed\<close>: \<^verbatim>\<open>fetch\<close> or
  \<^verbatim>\<open>response.json()\<close> threw. \<open>Parsed None\<close>: the JSON value is not an array.
  \<open>Parsed (Some es)\<close>: an array of entries. Of an entry the code reads \<^verbatim>\<open>woord\<close>
  only: \<open>NoObject\<close> is \<^verbatim>\<open>null\<close> (reading a property of it throws), \<open>Falsy\<close> an absent
  or falsy non-string \<^verbatim>\<open>woord\<close>, \<open>Text s\<close> a string, and \<open>Truthy\<close> any other truthy
  value, on which \<^verbatim>\<open>toLowerCase\<close> is not a function.
\<close>

datatype woord = Falsy | Text jsstring | Truthy

datatype entry = NoObject | Object woord

datatype response = Failed | Parsed "entry list option"

text \<open>\<^verbatim>\<open>data.some(...)\<close>, from left to right; \<open>None\<close> when the callback throws.\<close>

fun some_entry :: "host \<Rightarrow> jsstring \<Rightarrow> entry list \<Rightarrow> bool option" where
  "some_entry h word [] = Some False"
| "some_entry h word (NoObject # es) = None"
| "some_entry h word (Object Falsy # es) = some_entry h word es"
| "some_entry h word (Object Truthy # es) = None"
| "some_entry h word (Object (Text s) # es) =
     (if s \<noteq> [] \<and> toLowerCase h s = toLowerCase h word then Some True
      else some_entry h word es)"

definition checkDutchWord :: "host \<Rightarrow> jsstring \<Rightarrow> response \<Rightarrow> bool" where
  "checkDutchWord h word resp =
     (case resp of
        Failed \<Rightarrow> False
      | Parsed None \<Rightarrow> False
      | Parsed (Some es) \<Rightarrow> (case some_entry h word es of None \<Rightarrow> False | Some b \<Rightarrow> b))"

subsection \<open>Submitting a guess\<close>

definition rejection :: jsstring where
  "rejection = lit ''Dit is geen geldig Nederlands woord volgens woordenlijst.org''"

text \<open>
  \<open>handleWordleGuess\<close>, with the answer \<open>resp\<close> of the word list to its request. The
  handler is taken as one step: the state it closed over is the state it updates.
\<close>

definition handleWordleGuess :: "host \<Rightarrow> response \<Rightarrow> jsstring \<Rightarrow> AppState \<Rightarrow> AppState" where
  "handleWordleGuess h resp guess st =
     (case liveData st of
        None \<Rightarrow> st
      | Some ld \<Rightarrow>
          (if gameOver (wordleState st) \<or> length guess \<noteq> 5 then st
           else
             (let guessUpper = toUpperCase h guess;
                  isValid = checkDutchWord h guessUpper resp
              in if \<not> isValid then st\<lparr>wordleError := rejection\<rparr>
                 else
                   (let newGuesses = guesses (wordleState st) @ [guessUpper];
                        won = (guessUpper = toUpperCase h (wordleWord ld));
                        over = (won \<or> length newGuesses \<ge> maxGuesses (wordleState st))
                    in st\<lparr>wordleError := [],
                          wordleState := (wordleState st)\<lparr>guesses := newGuesses,
                            currentGuess := [], gameWon := won, gameOver := over\<rparr>\<rparr>))))"

definition resetWordleGame :: "AppState \<Rightarrow> AppState" where
  "resetWordleGame st = st\<lparr>wordleState := initialWordleState, wordleError := []\<rparr>"

section \<open>Loading and refreshing the session context\<close>

record Location =
  code :: jsstring
  name :: jsstring
  url :: jsstring   \<comment> \<open>\<^verbatim>\<open>streetViewUrl\<close>\<close>

definition locations :: "Location list" where
  "locations =
    [\<lparr>code = lit ''NL'', name = lit ''nederland'',
       url = lit ''https://www.google.com/maps/embed?pb=!4v1750161674270!6m8!1m7!1sCAoSLEFGMVFpcE5fVjBfSGVqVGVqVGVqVGVqVGVqVGVqVGVqVGVqVGVqVGVqVGVq!2m2!1d52.3676!2d4.9041!3f0!4f0!5f0.4820865974627469!6i1''\<rparr>,
     \<lparr>code = lit ''DE'', name = lit ''duitsland'',
       url = lit ''https://www.google.com/maps/embed?pb=!4v1750161674271!6m8!1m7!1sCAoSLEFGMVFpcE5fVjBfSGVqVGVqVGVqVGVqVGVqVGVqVGVqVGVqVGVqVGVqVGVq!2m2!1d52.5200!2d13.4050!3f0!4f0!5f0.4820865974627469!6i1''\<rparr>,
     \<lparr>code = lit ''FR'', name = lit ''frankrijk'',
       url = lit ''https://www.google.com/maps/embed?pb=!4v1750161674272!6m8!1m7!1sCAoSLEFGMVFpcE5fVjBfSGVqVGVqVGVqVGVqVGVqVGVqVGVqVGVqVGVqVGVqVGVq!2m2!1d48.8566!2d2.3522!3f0!4f0!5f0.4820865974627469!6i1''\<rparr>,
     \<lparr>code = lit ''BE'', name = lit ''belgi'' @ [8730] @ [180],
       url = lit ''https://www.google.com/maps/embed?pb=!4v1750161674270!6m8!1m7!1sPObmoWuv4YsRK7s8AA3b0w!2m2!1d50.84772347040428!2d4.357206757549814!3f144.22676!4f0!5f0.4820865974627469!6i1''\<rparr>,
     \<lparr>code = lit ''IT'', name = lit ''itali'' @ [8730] @ [180],
       url = lit ''https://www.google.com/maps/embed?pb=!4v1750161674273!6m8!1m7!1sCAoSLEFGMVFpcE5fVjBfSGVqVGVqVGVqVGVqVGVqVGVqVGVqVGVqVGVqVGVqVGVq!2m2!1d41.9028!2d12.4964!3f0!4f0!5f0.4820865974627469!6i1''\<rparr>,
     \<lparr>code = lit ''ES'', name = lit ''spanje'',
       url = lit ''https://www.google.com/maps/embed?pb=!4v1750161674274!6m8!1m7!1sCAoSLEFGMVFpcE5fVjBfSGVqVGVqVGVqVGVqVGVqVGVqVGVqVGVqVGVqVGVqVGVq!2m2!1d40.4168!2d-3.7038!3f0!4f0!5f0.4820865974627469!6i1''\<rparr>,
     \<lparr>code = lit ''PT'', name = lit ''portugal'',
       url = lit ''https://www.google.com/maps/embed?pb=!4v1750161674275!6m8!1m7!1sCAoSLEFGMVFpcE5fVjBfSGVqVGVqVGVqVGVqVGVqVGVqVGVqVGVqVGVqVGVqVGVq!2m2!1d38.7223!2d-9.1393!3f0!4f0!5f0.4820865974627469!6i1''\<rparr>]"

definition validDutchWords :: "jsstring list" where
  "validDutchWords = map lit
    [''HUIS'', ''BOOM'', ''WATER'', ''LICHT'', ''GROEN'', ''ZWART'', ''ROOD'', ''BLAUW'',
     ''GEEL'', ''GROOT'', ''KLEIN'', ''MOOI'', ''LIEF'', ''GOED'', ''SLECHT'', ''NIEUW'',
     ''OUD'', ''WARM'', ''KOUD'', ''HARD'', ''ZACHT'', ''SNEL'', ''TRAAG'', ''HOOG'',
     ''LAAG'', ''BREED'', ''SMAL'', ''LANG'', ''KORT'', ''DICHT'', ''OPEN'', ''LEEG'',
     ''VOL'', ''STIL'', ''LUID'', ''ZOET'', ''ZUUR'', ''ZOUT'', ''BITTER'', ''SCHERP'',
     ''BOT'', ''GLAD'', ''ROUW'', ''DROOG'', ''NAT'', ''SCHOON'', ''VUIL'', ''RIJK'',
     ''ARM'', ''DUUR'']"

text \<open>The expressions by code unit, as the source file spells them.\<close>

definition problems :: "MathProblem list" where
  "problems =
    [\<lparr>expression = [40, 49, 53, 32, 8730, 243, 32, 50, 41, 32, 45, 32, 40, 50, 48, 32, 43, 32, 54, 41],
       answer = 4\<rparr>,
     \<lparr>expression = [8218, 224, 246, 51, 54, 32, 45, 32, 50],
       answer = 4\<rparr>,
     \<lparr>expression = [40, 51, 172, 8804, 32, 8730, 243, 32, 50, 41, 32, 45, 32, 49, 52],
       answer = 4\<rparr>,
     \<lparr>expression = [40, 52, 56, 32, 8730, 8721, 32, 49, 50, 41, 32, 43, 32, 48],
       answer = 4\<rparr>,
     \<lparr>expression = [40, 55, 32, 8730, 243, 32, 51, 41, 32, 45, 32, 49, 55],
       answer = 4\<rparr>,
     \<lparr>expression = [40, 56, 32, 8730, 8721, 32, 50, 41, 32, 8730, 243, 32, 49],
       answer = 4\<rparr>,
     \<lparr>expression = [40, 53, 32, 43, 32, 51, 41, 32, 8730, 8721, 32, 50],
       answer = 4\<rparr>]"

text \<open>
  \<^verbatim>\<open>xs[Math.floor(Math.random() * xs.length)]\<close>. The draw is an index below the length of
  the table; the model receives it as a natural number and reduces it modulo the length,
  so that every input stands for a draw.
\<close>

definition pick :: "'a list \<Rightarrow> nat \<Rightarrow> 'a" where
  "pick xs draw = xs ! (draw mod length xs)"

text \<open>
  \<open>handleRefreshData\<close> once its timer has fired: \<open>temp\<close> is what \<^verbatim>\<open>fetchWeatherData\<close>
  resolved to (it always resolves), and the three draws choose the location, the word and
  the puzzle.
\<close>

definition handleRefreshData :: "int \<Rightarrow> nat \<Rightarrow> nat \<Rightarrow> nat \<Rightarrow> AppState \<Rightarrow> AppState" where
  "handleRefreshData temp draw_location draw_word draw_problem st =
     (case liveData st of
        Some ld \<Rightarrow>
          (let location = pick locations draw_location;
               fiveLetterWords = filter (\<lambda>word. length word = 5) validDutchWords;
               word = pick fiveLetterWords draw_word;
               problem = pick problems draw_problem
           in st\<lparr>liveData := Some (ld\<lparr>countryCode := code location,
                                        countryName := name location,
                                        streetViewUrl := url location,
                                        mathProblem := problem,
                                        temperature := temp,
                                        wordleWord := word\<rparr>),
                 wordleState := initialWordleState,
                 wordleError := [],
                 isLoadingData := False\<rparr>)
      | None \<Rightarrow> st\<lparr>isLoadingData := False\<rparr>)"

text \<open>The end of the first load: \<open>ld\<close> is the context that \<^verbatim>\<open>fetchData\<close> assembled.\<close>

definition dataLoaded :: "LiveData \<Rightarrow> AppState \<Rightarrow> AppState" where
  "dataLoaded ld st =
     st\<lparr>liveData := Some ld, wordleState := initialWordleState, isLoadingData := False\<rparr>"

section \<open>Events\<close>

text \<open>
  Everything that writes the state: the handlers of the page and the evaluation effect,
  which React runs after a render in which one of its dependencies changed.
\<close>

datatype action =
    SetPassword jsstring
  | ToggleShowPassword
  | DataLoaded LiveData
  | RefreshData int nat nat nat
  | SetCurrentGuess jsstring
  | WordleGuess response jsstring
  | ResetWordle
  | PuzzleComplete
  | Effect clock

fun perform :: "host \<Rightarrow> action \<Rightarrow> AppState \<Rightarrow> AppState" where
  "perform h (SetPassword v) st = st\<lparr>password := v\<rparr>"
| "perform h ToggleShowPassword st = st\<lparr>showPassword := \<not> showPassword st\<rparr>"
| "perform h (DataLoaded ld) st = dataLoaded ld st"
| "perform h (RefreshData temp dl dw dp) st = handleRefreshData temp dl dw dp st"
| "perform h (SetCurrentGuess v) st =
     st\<lparr>wordleState := (wordleState st)\<lparr>currentGuess := take 5 (toUpperCase h v)\<rparr>,
        wordleError := []\<rparr>"
| "perform h (WordleGuess resp guess) st = handleWordleGuess h resp guess st"
| "perform h ResetWordle st = resetWordleGame st"
| "perform h PuzzleComplete st = st\<lparr>wordrowCompleted := True\<rparr>"
| "perform h (Effect clk) st = evaluation_effect h clk st"

fun perform_all :: "host \<Rightarrow> action list \<Rightarrow> AppState \<Rightarrow> AppState" where
  "perform_all h [] st = st"
| "perform_all h (a # as) st = perform_all h as (perform h a st)"

section \<open>Notions of the specification\<close>

text \<open>A prime number: greater than one, with no divisor strictly between one and itself.\<close>

definition is_prime :: "nat \<Rightarrow> bool" where
  "is_prime n = (1 < n \<and> (\<forall>d \<in> {2..<n}. \<not> d dvd n))"

section \<open>A concrete host\<close>

text \<open>
  A host to evaluate the model on: ASCII case mapping (what the engine computes on ASCII
  strings) and the time zone UTC.
\<close>

definition ascii_lower :: "jsstring \<Rightarrow> jsstring" where
  "ascii_lower s = map (\<lambda>c. if 65 \<le> c \<and> c \<le> 90 then c + 32 else c) s"

definition ascii_upper :: "jsstring \<Rightarrow> jsstring" where
  "ascii_upper s = map (\<lambda>c. if 97 \<le> c \<and> c \<le> 122 then c - 32 else c) s"

definition utc_host :: host where
  "utc_host = \<lparr>toLowerCase = ascii_lower, toUpperCase = ascii_upper,
                getTimezoneOffset = (\<lambda>t. 0)\<rparr>"

section \<open>The longest satisfied prefix\<close>

text \<open>
  The number \<open>k\<close> of the specification of \<open>computeVisible\<close>: how many of the ids
  \<open>1, 2, ..., n\<close> are satisfied before the first one that is not.
\<close>

definition satisfied_prefix :: "nat set \<Rightarrow> nat \<Rightarrow> nat" where
  "satisfied_prefix satisfiedIds n = length (takeWhile (\<lambda>i. i \<in> satisfiedIds) [1..<Suc n])"

section \<open>Roman numerals in the words of the specification\<close>

text \<open>The value of a symbol; 0 for a character that is none of the seven.\<close>

definition symbol_value :: "nat \<Rightarrow> nat" where
  "symbol_value c = (case romanNumerals c of Some v \<Rightarrow> v | None \<Rightarrow> 0)"

text \<open>
  \<open>valueOf\<close> as the specification describes it: scan from the left; when a next symbol
  exists and is worth more than the current one, add the difference and skip both,
  otherwise add the current symbol and move on by one.
\<close>

fun valueOf :: "jsstring \<Rightarrow> nat" where
  "valueOf [] = 0"
| "valueOf [cur] = symbol_value cur"
| "valueOf (cur # next # rest) =
     (if symbol_value cur < symbol_value next
      then (symbol_value next - symbol_value cur) + valueOf rest
      else symbol_value cur + valueOf (next # rest))"

text \<open>
  \<open>run\<close> is a maximal contiguous run of characters of the class \<open>p\<close> inside \<open>text\<close>:
  it is not empty, all its characters are in the class, and neither the character before
  it nor the one after it (when there is one) is.
\<close>

definition maximal_run :: "(nat \<Rightarrow> bool) \<Rightarrow> jsstring \<Rightarrow> jsstring \<Rightarrow> bool" where
  "maximal_run p text run =
     (\<exists>pre post. text = pre @ run @ post \<and> run \<noteq> [] \<and> list_all p run
        \<and> (pre = [] \<or> \<not> p (last pre)) \<and> (post = [] \<or> \<not> p (hd post)))"

text \<open>The maximal runs of a class from left to right, computed directly.\<close>

function runs :: "(nat \<Rightarrow> bool) \<Rightarrow> jsstring \<Rightarrow> jsstring list" where
  "runs p [] = []"
| "runs p (c # cs) =
     (if p c then takeWhile p (c # cs) # runs p (dropWhile p cs) else runs p cs)"
  by pat_completeness auto
termination
  by (relation "measure (\<lambda>(p, s). length s)") (auto simp: length_dropWhile_le le_imp_less_Suc)

section \<open>A sample session context\<close>

definition sample_context :: LiveData where
  "sample_context =
     \<lparr>dayOfYear = 64, dayOfWeek = 4, zodiacSymbol = [9809], moonPhase = [55356, 57109],
      temperature = 20, wordleWord = lit ''WOOLS'',
      mathProblem = \<lparr>expression = lit ''(5 + 3) / 2'', answer = 4\<rparr>,
      chessMove = lit ''Qb5+'', chessPosition = [],
      countryCode = lit ''ES'', countryName = lit ''spanje'', streetViewUrl = []\<rparr>"

section \<open>The scorer of the specification\<close>

datatype classification = Exact | Partial | Absent

text \<open>The CSS classes with which \<open>getLetterStatus\<close> renders a classification.\<close>

fun status_class :: "classification \<Rightarrow> jsstring" where
  "status_class Exact = lit ''bg-green-500 text-white''"
| "status_class Partial = lit ''bg-yellow-500 text-white''"
| "status_class Absent = lit ''bg-gray-400 text-white''"

text \<open>
  Pass 1 marks the positions where guess and target agree; each consumes one occurrence
  of its letter from the multiset of the target. \<open>after_exact guess target c\<close> is how
  many occurrences of \<open>c\<close> the target has left after it.
\<close>

definition after_exact :: "jsstring \<Rightarrow> jsstring \<Rightarrow> nat \<Rightarrow> nat" where
  "after_exact guess target c =
     length (filter (\<lambda>l. l = c) target)
     - length (filter (\<lambda>(g, t). g = t \<and> g = c) (zip guess target))"

text \<open>
  Pass 2 goes over the positions from the left with the occurrences that remain: a
  position that is not exact is \<open>Partial\<close> when its letter still has an occurrence, which
  it consumes, and \<open>Absent\<close> otherwise.
\<close>

fun pass2 :: "(nat \<Rightarrow> nat) \<Rightarrow> (nat \<times> nat) list \<Rightarrow> classification list" where
  "pass2 remaining [] = []"
| "pass2 remaining ((g, t) # rest) =
     (if g = t then Exact # pass2 remaining rest
      else if remaining g > 0
           then Partial # pass2 (\<lambda>c. if c = g then remaining c - 1 else remaining c) rest
      else Absent # pass2 remaining rest)"

definition score :: "jsstring \<Rightarrow> jsstring \<Rightarrow> classification list" where
  "score guess target = pass2 (after_exact guess target) (zip guess target)"

section \<open>A candidate that satisfies every rule\<close>

text \<open>
  With \<open>sample_context\<close> and the clock at 00:00 UTC (02:00 in the rule's time zone) this
  candidate of 67 code units satisfies the 25 rules.
\<close>

definition winning :: jsstring where
  "winning = lit ''Qb5+He64mei02:00wit9996geestAAAAAtomorrowlandXXXVverkeerde''
             @ [9809, 55356, 57109] @ lit ''spanje''"

section \<open>Properties\<close>

subsection \<open>Rule 25: prime length\<close>

lemma is_prime_iff: "is_prime n \<longleftrightarrow> 1 < n \<and> (\<forall>d. d dvd n \<longrightarrow> d = 1 \<or> d = n)"
proof
  assume p: "is_prime n"
  show "1 < n \<and> (\<forall>d. d dvd n \<longrightarrow> d = 1 \<or> d = n)"
  proof (intro conjI allI impI)
    show "1 < n" using p by (simp add: is_prime_def)
  next
    fix d assume d: "d dvd n"
    have "n > 0" using p by (simp add: is_prime_def)
    with d have "d \<le> n" "d \<noteq> 0" by (auto dest: dvd_imp_le)
    show "d = 1 \<or> d = n"
    proof (rule ccontr)
      assume "\<not> (d = 1 \<or> d = n)"
      with \<open>d \<le> n\<close> \<open>d \<noteq> 0\<close> have "d \<in> {2..<n}" by auto
      with p d show False by (auto simp: is_prime_def)
    qed
  qed
next
  assume "1 < n \<and> (\<forall>d. d dvd n \<longrightarrow> d = 1 \<or> d = n)"
  then show "is_prime n" by (auto simp: is_prime_def)
qed

lemma prime_loop_char:
  "prime_loop len i \<longleftrightarrow> (\<forall>d. i \<le> d \<and> d * d \<le> len \<longrightarrow> \<not> d dvd len)"
proof (induction len i rule: prime_loop.induct)
  case (1 len i)
  show ?case
  proof (cases "i * i \<le> len")
    case False
    have "\<And>d. i \<le> d \<Longrightarrow> \<not> d * d \<le> len"
    proof
      fix d assume "i \<le> d" "d * d \<le> len"
      then have "i * i \<le> d * d" by (simp add: mult_le_mono)
      with \<open>d * d \<le> len\<close> False show False by linarith
    qed
    with False show ?thesis by (subst prime_loop.simps) auto
  next
    case sq: True
    show ?thesis
    proof (cases "len mod i = 0")
      case True
      then have "i dvd len" by auto
      with sq True show ?thesis by (subst prime_loop.simps) auto
    next
      case False
      then have nd: "\<not> i dvd len" by auto
      have ih: "prime_loop len (i + 1) \<longleftrightarrow> (\<forall>d. i + 1 \<le> d \<and> d * d \<le> len \<longrightarrow> \<not> d dvd len)"
        using "1.IH"[OF sq False] by simp
      have "(\<forall>d. i + 1 \<le> d \<and> d * d \<le> len \<longrightarrow> \<not> d dvd len) \<longleftrightarrow>
            (\<forall>d. i \<le> d \<and> d * d \<le> len \<longrightarrow> \<not> d dvd len)"
      proof (intro iffI allI impI)
        fix d assume a: "\<forall>d. i + 1 \<le> d \<and> d * d \<le> len \<longrightarrow> \<not> d dvd len" and b: "i \<le> d \<and> d * d \<le> len"
        show "\<not> d dvd len"
        proof (cases "d = i")
          case True with nd show ?thesis by simp
        next
          case False with b have "i + 1 \<le> d" by simp
          with a b show ?thesis by blast
        qed
      next
        fix d assume a: "\<forall>d. i \<le> d \<and> d * d \<le> len \<longrightarrow> \<not> d dvd len" and b: "i + 1 \<le> d \<and> d * d \<le> len"
        then have "i \<le> d \<and> d * d \<le> len" by simp
        with a show "\<not> d dvd len" by blast
      qed
      with ih sq False show ?thesis by (subst prime_loop.simps) simp
    qed
  qed
qed

lemma small_divisor:
  fixes n d :: nat
  assumes "d dvd n" "2 \<le> d" "d < n"
  shows "\<exists>e. 2 \<le> e \<and> e * e \<le> n \<and> e dvd n"
proof -
  from assms obtain k where k: "n = d * k" by (auto simp: dvd_def)
  with assms have k2: "2 \<le> k" by (cases k; cases "k - 1") auto
  show ?thesis
  proof (cases "d \<le> k")
    case True
    then have "d * d \<le> d * k" by simp
    with k assms show ?thesis by auto
  next
    case False
    then have "k * k \<le> d * k" by simp
    moreover have "k dvd n" using k by simp
    ultimately show ?thesis using k k2 by auto
  qed
qed

lemma prime_loop_from_2:
  assumes "2 \<le> n"
  shows "prime_loop n 2 \<longleftrightarrow> (\<forall>d \<in> {2..<n}. \<not> d dvd n)"
proof
  assume pl: "prime_loop n 2"
  show "\<forall>d \<in> {2..<n}. \<not> d dvd n"
  proof (intro ballI notI)
    fix d assume "d \<in> {2..<n}" "d dvd n"
    then obtain e where "2 \<le> e" "e * e \<le> n" "e dvd n"
      using small_divisor[of d n] by auto
    with pl show False by (simp add: prime_loop_char)
  qed
next
  assume np: "\<forall>d \<in> {2..<n}. \<not> d dvd n"
  have "\<And>d. 2 \<le> d \<Longrightarrow> d * d \<le> n \<Longrightarrow> \<not> d dvd n"
  proof -
    fix d :: nat assume d: "2 \<le> d" "d * d \<le> n"
    then have "2 * d \<le> d * d" by simp
    with d have "d < n" by linarith
    with d np show "\<not> d dvd n" by simp
  qed
  then show "prime_loop n 2" by (simp add: prime_loop_char)
qed

lemma rule25_iff_prime: "rule25 pwd \<longleftrightarrow> is_prime (length pwd)"
proof (cases "length pwd < 2")
  case True
  then show ?thesis by (simp add: rule25_def is_prime_def)
next
  case False
  then show ?thesis
    using prime_loop_from_2[of "length pwd"] by (simp add: rule25_def is_prime_def Let_def)
qed

lemma rule25_by_length:
  "rule25 pwd = (let n = length pwd in if n < 2 then False else prime_loop n 2)"
  by (simp add: rule25_def)

lemma prime_loop_small:
  "prime_loop 2 2" "prime_loop 3 2" "prime_loop 5 2" "prime_loop 7 2"
  "\<not> prime_loop 4 2" "\<not> prime_loop 6 2" "\<not> prime_loop 8 2" "\<not> prime_loop 9 2"
  by (simp_all add: prime_loop.simps)

text \<open>
  Claim C8. The validator of rule 25 accepts a candidate exactly when its length is a prime
  number; so a candidate of length 2, 3, 5 or 7 satisfies the rule and one of length 1, 4,
  6, 8 or 9 does not.
\<close>

theorem rule25_prime_length:
  "(rule25 pwd \<longleftrightarrow> is_prime (length pwd))
   \<and> (length pwd \<in> {2, 3, 5, 7} \<longrightarrow> rule25 pwd)
   \<and> (length pwd \<in> {1, 4, 6, 8, 9} \<longrightarrow> \<not> rule25 pwd)"
proof (intro conjI impI)
  show "rule25 pwd \<longleftrightarrow> is_prime (length pwd)" by (rule rule25_iff_prime)
next
  assume "length pwd \<in> {2, 3, 5, 7}"
  then show "rule25 pwd" by (auto simp: rule25_def prime_loop_small)
next
  assume "length pwd \<in> {1, 4, 6, 8, 9}"
  then show "\<not> rule25 pwd" by (auto simp: rule25_def prime_loop_small)
qed

theorem rule25_prime_length_witness:
  "length (lit ''Geest64'') \<in> {2, 3, 5, 7} \<and> rule25 (lit ''Geest64'')
   \<and> is_prime (length (lit ''Geest64''))
   \<and> length (lit ''Geest641'') \<in> {1, 4, 6, 8, 9} \<and> \<not> rule25 (lit ''Geest641'')
   \<and> \<not> is_prime (length (lit ''Geest641''))"
proof -
  have l7: "length (lit ''Geest64'') \<in> {2, 3, 5, 7}" by (simp add: lit_def)
  have l8: "length (lit ''Geest641'') \<in> {1, 4, 6, 8, 9}" by (simp add: lit_def)
  show ?thesis
    using l7 l8 rule25_prime_length [of "lit ''Geest64''"] rule25_prime_length [of "lit ''Geest641''"]
    by blast
qed

subsection \<open>Progression: the visible count\<close>

lemma satisfied_prefix_le: "satisfied_prefix S n \<le> n"
  using length_takeWhile_le[of "\<lambda>i. i \<in> S" "[1..<Suc n]"]
  by (simp add: satisfied_prefix_def del: upt_Suc)

lemma satisfied_prefix_mem:
  assumes "1 \<le> i" "i \<le> satisfied_prefix S n"
  shows "i \<in> S"
proof -
  let ?xs = "[1..<Suc n]" and ?P = "\<lambda>i. i \<in> S"
  have lt: "i - 1 < length (takeWhile ?P ?xs)"
    using assms by (simp add: satisfied_prefix_def del: upt_Suc)
  then have "takeWhile ?P ?xs ! (i - 1) \<in> set (takeWhile ?P ?xs)" by (rule nth_mem)
  then have "?P (takeWhile ?P ?xs ! (i - 1))" by (rule set_takeWhileD[THEN conjunct2])
  moreover have "takeWhile ?P ?xs ! (i - 1) = ?xs ! (i - 1)" using lt by (rule takeWhile_nth)
  moreover have "i - 1 < length ?xs" using lt length_takeWhile_le[of ?P ?xs] by linarith
  then have "?xs ! (i - 1) = i" using assms(1) by (simp del: upt_Suc)
  ultimately show ?thesis by simp
qed

lemma satisfied_prefix_stop:
  assumes "satisfied_prefix S n < n"
  shows "Suc (satisfied_prefix S n) \<notin> S"
proof -
  let ?xs = "[1..<Suc n]" and ?P = "\<lambda>i. i \<in> S"
  have "length (takeWhile ?P ?xs) < length ?xs"
    using assms by (simp add: satisfied_prefix_def del: upt_Suc)
  then have "\<not> ?P (?xs ! length (takeWhile ?P ?xs))" by (rule nth_length_takeWhile)
  moreover have "?xs ! length (takeWhile ?P ?xs) = Suc (satisfied_prefix S n)"
    using assms by (simp add: satisfied_prefix_def del: upt_Suc)
  ultimately show ?thesis by simp
qed

lemma visible_loop_prefix:
  "i \<le> Suc n \<Longrightarrow>
   visible_loop S n i i = i + length (takeWhile (\<lambda>j. j \<in> S) [i..<Suc n])"
proof (induction "Suc n - i" arbitrary: i)
  case 0
  then have "i = Suc n" by simp
  then show ?case by (subst visible_loop.simps) simp
next
  case (Suc k)
  then have le: "i \<le> n" by simp
  then have up: "[i..<Suc n] = i # [Suc i..<Suc n]" by (simp add: upt_conv_Cons del: upt_Suc)
  show ?case
  proof (cases "i \<in> S")
    case True
    have "visible_loop S n (i + 1) (i + 1) = (i + 1) + length (takeWhile (\<lambda>j. j \<in> S) [i + 1..<Suc n])"
      using Suc.hyps(1)[of "i + 1"] Suc.hyps(2) le by simp
    with True le up show ?thesis by (subst visible_loop.simps) simp
  next
    case False
    with le up show ?thesis by (subst visible_loop.simps) simp
  qed
qed

lemma visible_loop_start: "visible_loop S n (Suc 0) (Suc 0) = Suc (satisfied_prefix S n)"
  using visible_loop_prefix[of "Suc 0" n S] by (simp add: satisfied_prefix_def del: upt_Suc)

lemma computeVisible_eq:
  "computeVisible prev pwd S n =
     (if pwd = [] then 0 else max prev (min (satisfied_prefix S n + 1) n))"
  by (simp add: computeVisible_def visible_loop_start Let_def)

lemma length_rules: "length (rules h clk ld) = 25"
  by (simp add: rules_def)

lemma effect_maxVisible:
  "maxVisibleRule (evaluation_effect h clk st) =
     computeVisible (maxVisibleRule st) (password st)
       (completedRules (evaluation_effect h clk st)) 25"
  by (simp add: evaluation_effect_def Let_def length_rules)

text \<open>
  Claim C3. For an empty candidate the visible count is 0 whatever the rest; otherwise it
  is the maximum of the previous count and \<open>min (k + 1) n\<close>, where \<open>k\<close> is the
  longest prefix of satisfied ids (\<open>k \<le> n\<close>, the ids \<open>1..k\<close> are satisfied, and
  \<open>k + 1\<close> is not when \<open>k < n\<close>). Hence the count never decreases while the
  candidate is non-empty, whatever the satisfied set. The evaluation effect stores exactly
  this value, with \<open>n = 25\<close>.
\<close>

theorem visible_count_ratchet:
  "computeVisible prevVisible pwd satisfiedIds n =
     (if pwd = [] then 0 else max prevVisible (min (satisfied_prefix satisfiedIds n + 1) n))
   \<and> satisfied_prefix satisfiedIds n \<le> n
   \<and> (\<forall>i. 1 \<le> i \<and> i \<le> satisfied_prefix satisfiedIds n \<longrightarrow> i \<in> satisfiedIds)
   \<and> (satisfied_prefix satisfiedIds n < n \<longrightarrow> Suc (satisfied_prefix satisfiedIds n) \<notin> satisfiedIds)
   \<and> (pwd \<noteq> [] \<longrightarrow> prevVisible \<le> computeVisible prevVisible pwd satisfiedIds n)
   \<and> maxVisibleRule (evaluation_effect h clk st) =
       computeVisible (maxVisibleRule st) (password st)
         (completedRules (evaluation_effect h clk st)) 25"
proof (intro conjI allI impI)
  show "computeVisible prevVisible pwd satisfiedIds n =
     (if pwd = [] then 0 else max prevVisible (min (satisfied_prefix satisfiedIds n + 1) n))"
    by (rule computeVisible_eq)
  show "satisfied_prefix satisfiedIds n \<le> n" by (rule satisfied_prefix_le)
  show "i \<in> satisfiedIds" if "1 \<le> i \<and> i \<le> satisfied_prefix satisfiedIds n" for i
    using that satisfied_prefix_mem by blast
  show "Suc (satisfied_prefix satisfiedIds n) \<notin> satisfiedIds"
    if "satisfied_prefix satisfiedIds n < n"
    using that by (rule satisfied_prefix_stop)
  show "prevVisible \<le> computeVisible prevVisible pwd satisfiedIds n" if "pwd \<noteq> []"
    using that by (simp add: computeVisible_eq)
  show "maxVisibleRule (evaluation_effect h clk st) =
       computeVisible (maxVisibleRule st) (password st)
         (completedRules (evaluation_effect h clk st)) 25"
    by (rule effect_maxVisible)
qed

lemma satisfied_prefix_example: "satisfied_prefix {1, 2, 4} 25 = 2"
  by (simp add: satisfied_prefix_def upt_conv_Cons del: upt_Suc)

theorem visible_count_ratchet_witness:
  "satisfied_prefix {1, 2, 4} 25 = 2
   \<and> computeVisible 0 (lit ''ab'') {1, 2, 4} 25 = 3
   \<and> computeVisible 7 (lit ''ab'') {1, 2, 4} 25 = 7
   \<and> computeVisible 7 [] {1, 2, 4} 25 = 0
   \<and> (2::nat) \<in> {1, 2, 4} \<and> Suc 2 \<notin> {1, 2, 4}
   \<and> maxVisibleRule (evaluation_effect utc_host (0, 0) initialState) = 0"
  using visible_count_ratchet [of 0 "lit ''ab''" "{1, 2, 4}" 25 utc_host "(0, 0)" initialState]
    visible_count_ratchet [of 7 "lit ''ab''" "{1, 2, 4}" 25 utc_host "(0, 0)" initialState]
    visible_count_ratchet [of 7 "[]" "{1, 2, 4}" 25 utc_host "(0, 0)" initialState]
  unfolding satisfied_prefix_example
  by (simp add: lit_def initialState_def computeVisible_eq)

subsection \<open>Proofs for rule 14: Roman numerals\<close>

lemma match_at_Plus:
  "match_at [Plus p] s =
     (if s \<noteq> [] \<and> p (hd s) then Some (length (takeWhile p s)) else None)"
proof (induction s)
  case Nil
  show ?case by simp
next
  case (Cons c cs)
  show ?case
  proof (cases "p c")
    case False
    then show ?thesis by simp
  next
    case True
    show ?thesis
    proof (cases "cs \<noteq> [] \<and> p (hd cs)")
      case True
      with \<open>p c\<close> Cons.IH show ?thesis by simp
    next
      case False
      then have "takeWhile p cs = []" by (cases cs) auto
      with False \<open>p c\<close> Cons.IH show ?thesis by simp
    qed
  qed
qed

lemma match_global_Plus: "match_global [Plus p] s = runs p s"
proof (induction p s rule: runs.induct)
  case (1 p)
  show ?case by simp
next
  case (2 p c cs)
  show ?case
  proof (cases "p c")
    case False
    then have "match_at [Plus p] (c # cs) = None" by simp
    then have "match_global [Plus p] (c # cs) = match_global [Plus p] cs" by simp
    with False 2(2) show ?thesis by simp
  next
    case True
    let ?n = "length (takeWhile p (c # cs))"
    have n: "?n \<noteq> 0" using True by simp
    have tk: "take ?n (c # cs) = takeWhile p (c # cs)"
      by (rule takeWhile_eq_take[symmetric])
    have dr: "drop ?n (c # cs) = dropWhile p cs"
      using dropWhile_eq_drop[of p "c # cs"] True by simp
    have "match_at [Plus p] (c # cs) = Some ?n"
      using True by (simp only: match_at_Plus list.sel list.simps if_True simp_thms)
    then have "match_global [Plus p] (c # cs) =
            take ?n (c # cs) # match_global [Plus p] (drop ?n (c # cs))"
      using n by (simp only: match_global.simps option.case if_False)
    also have "\<dots> = takeWhile p (c # cs) # runs p (dropWhile p cs)"
      using 2(1)[OF True] by (simp only: tk dr)
    also have "\<dots> = runs p (c # cs)" using True by simp
    finally show ?thesis .
  qed
qed

lemma maximal_runI:
  "text = pre @ r @ post \<Longrightarrow> r \<noteq> [] \<Longrightarrow> list_all p r \<Longrightarrow> pre = [] \<or> \<not> p (last pre)
   \<Longrightarrow> post = [] \<or> \<not> p (hd post) \<Longrightarrow> maximal_run p text r"
  unfolding maximal_run_def by (intro exI[of _ pre] exI[of _ post] conjI)

lemma maximal_runE:
  assumes "maximal_run p text r"
  obtains pre post where "text = pre @ r @ post" "r \<noteq> []" "list_all p r"
    "pre = [] \<or> \<not> p (last pre)" "post = [] \<or> \<not> p (hd post)"
  using assms unfolding maximal_run_def by (elim exE conjE)

lemma list_all_takeWhile: "list_all p (takeWhile p xs)"
  by (induction xs) simp_all

lemma runs_sound: "r \<in> set (runs p s) \<Longrightarrow> maximal_run p s r"
proof (induction p s rule: runs.induct)
  case (1 p)
  then show ?case by simp
next
  case (2 p c cs)
  show ?case
  proof (cases "p c")
    case False
    from 2(3) False have "r \<in> set (runs p cs)" by simp
    then have "maximal_run p cs r" by (rule "2.IH"(2)[OF False])
    then obtain pre post where d: "cs = pre @ r @ post" "r \<noteq> []" "list_all p r"
        "pre = [] \<or> \<not> p (last pre)" "post = [] \<or> \<not> p (hd post)"
      by (rule maximal_runE)
    have a: "c # cs = (c # pre) @ r @ post" using d(1) by simp
    have b: "c # pre = [] \<or> \<not> p (last (c # pre))"
    proof (cases "pre = []")
      case True with False show ?thesis by simp
    next
      case np: False with d(4) show ?thesis by simp
    qed
    show ?thesis using a d(2,3) b d(5) by (rule maximal_runI)
  next
    case True
    define t where "t = takeWhile p (c # cs)"
    have split: "c # cs = t @ dropWhile p cs"
      unfolding t_def using takeWhile_dropWhile_id[of p "c # cs"] True by simp
    have rs: "runs p (c # cs) = t # runs p (dropWhile p cs)"
      unfolding t_def using True by (simp only: runs.simps if_True)
    from 2(3) have "r = t \<or> r \<in> set (runs p (dropWhile p cs))"
      unfolding rs by simp
    then show ?thesis
    proof
      assume 1: "r = t"
      have e: "dropWhile p cs = [] \<or> \<not> p (hd (dropWhile p cs))"
      proof (cases "dropWhile p cs = []")
        case True then show ?thesis by simp
      next
        case False then show ?thesis using hd_dropWhile[of p cs] by simp
      qed
      have a: "list_all p r" unfolding 1 t_def by (rule list_all_takeWhile)
      have n: "r \<noteq> []" using True unfolding 1 t_def by simp
      have s: "c # cs = [] @ r @ dropWhile p cs" using split 1 by simp
      have b: "([]::nat list) = [] \<or> \<not> p (last [])" by simp
      show ?thesis using s n a b e by (rule maximal_runI)
    next
      assume "r \<in> set (runs p (dropWhile p cs))"
      then have "maximal_run p (dropWhile p cs) r" by (rule "2.IH"(1)[OF True])
      then obtain pre post where d: "dropWhile p cs = pre @ r @ post" "r \<noteq> []" "list_all p r"
          "pre = [] \<or> \<not> p (last pre)" "post = [] \<or> \<not> p (hd post)"
        by (rule maximal_runE)
      have ne: "pre \<noteq> []"
      proof
        assume "pre = []"
        with d(1,2) have h: "hd (dropWhile p cs) = hd r" and n: "dropWhile p cs \<noteq> []" by simp_all
        have "p (hd r)" using d(2,3) by (cases r) simp_all
        moreover have "\<not> p (hd (dropWhile p cs))" using n by (rule hd_dropWhile)
        ultimately show False using h by simp
      qed
      with d(4) have b: "t @ pre = [] \<or> \<not> p (last (t @ pre))" by simp
      have s: "c # cs = (t @ pre) @ r @ post" using split d(1) by simp
      show ?thesis using s d(2,3) b d(5) by (rule maximal_runI)
    qed
  qed
qed

lemma takeWhile_run:
  assumes "list_all p r" "post = [] \<or> \<not> p (hd post)"
  shows "takeWhile p (r @ post) = r"
proof -
  have "takeWhile p (r @ post) = r @ takeWhile p post"
    using assms(1) by (simp add: list_all_iff)
  moreover have "takeWhile p post = []" using assms(2) by (cases post) auto
  ultimately show ?thesis by simp
qed

lemma runs_complete:
  "s = pre @ r @ post \<Longrightarrow> r \<noteq> [] \<Longrightarrow> list_all p r \<Longrightarrow> pre = [] \<or> \<not> p (last pre)
   \<Longrightarrow> post = [] \<or> \<not> p (hd post) \<Longrightarrow> r \<in> set (runs p s)"
proof (induction p s arbitrary: pre rule: runs.induct)
  case (1 p)
  then show ?case by simp
next
  case (2 p c cs)
  show ?case
  proof (cases "p c")
    case False
    have "pre \<noteq> []"
    proof
      assume "pre = []"
      with 2(3,4) have "c = hd r" by (cases r) auto
      moreover have "p (hd r)" using 2(4,5) by (cases r) auto
      ultimately show False using False by simp
    qed
    then obtain pre' where pre: "pre = c # pre'" using 2(3) by (cases pre) auto
    then have a: "cs = pre' @ r @ post" using 2(3) by simp
    have b: "pre' = [] \<or> \<not> p (last pre')" using 2(6) pre by (cases pre') auto
    have "r \<in> set (runs p cs)" using False a 2(4,5) b 2(7) by (rule "2.IH"(2))
    with False show ?thesis by simp
  next
    case True
    show ?thesis
    proof (cases "pre = []")
      case pn: True
      then have "takeWhile p (c # cs) = r" using 2(3,5,7) takeWhile_run[of p r post] by simp
      with True show ?thesis by simp
    next
      case False
      with 2(6) have nl: "\<not> p (last pre)" by simp
      have lin: "last pre \<in> set pre" using False by simp
      have "dropWhile p (pre @ (r @ post)) = dropWhile p pre @ (r @ post)"
        using lin nl by (rule dropWhile_append1)
      then have dw: "dropWhile p (c # cs) = dropWhile p pre @ r @ post"
        using 2(3) by simp
      then have dw': "dropWhile p cs = dropWhile p pre @ r @ post" using True by simp
      have ne: "dropWhile p pre \<noteq> []" using lin nl by auto
      have "last pre = last (takeWhile p pre @ dropWhile p pre)" by simp
      also have "\<dots> = last (dropWhile p pre)" using ne by (rule last_appendR)
      finally have "\<not> p (last (dropWhile p pre))" using nl by simp
      then have b: "dropWhile p pre = [] \<or> \<not> p (last (dropWhile p pre))" by simp
      have "r \<in> set (runs p (dropWhile p cs))"
        using True dw' 2(4,5) b 2(7) by (rule "2.IH"(1))
      with True show ?thesis by simp
    qed
  qed
qed

lemma runs_maximal: "r \<in> set (runs p s) \<longleftrightarrow> maximal_run p s r"
proof
  assume "r \<in> set (runs p s)" then show "maximal_run p s r" by (rule runs_sound)
next
  assume "maximal_run p s r"
  then obtain pre post where "s = pre @ r @ post" "r \<noteq> []" "list_all p r"
        "pre = [] \<or> \<not> p (last pre)" "post = [] \<or> \<not> p (hd post)"
    by (rule maximal_runE)
  then show "r \<in> set (runs p s)" by (rule runs_complete)
qed


lemma is_roman_iff: "is_roman c \<longleftrightarrow> c \<in> {73, 86, 88, 76, 67, 68, 77}"
  by (auto simp: is_roman_def lit_def)

lemma romanNumerals_roman: "is_roman c \<Longrightarrow> romanNumerals c = Some (symbol_value c)"
  by (auto simp: is_roman_iff symbol_value_def romanNumerals_def)

lemma lowercase_not_roman: "97 \<le> c \<Longrightarrow> \<not> is_roman c"
  by (simp add: is_roman_iff)

lemma roman_loop_valueOf:
  "list_all is_roman m \<Longrightarrow> i \<le> length m \<Longrightarrow>
   roman_loop m i v = Some (v + valueOf (drop i m))"
proof (induction m i v rule: roman_loop.induct)
  case (1 m i v)
  show ?case
  proof (cases "i < length m")
    case False
    with 1(5) show ?thesis by (subst roman_loop.simps) simp
  next
    case lt: True
    define cur where "cur = symbol_value (m ! i)"
    have cur: "romanNumerals (m ! i) = Some cur"
      unfolding cur_def using 1(4) lt by (simp add: list_all_length romanNumerals_roman)
    have d1: "drop i m = m ! i # drop (i + 1) m"
      using lt by (simp add: Cons_nth_drop_Suc)
    show ?thesis
    proof (cases "i + 1 < length m")
      case False
      then have e: "drop (i + 1) m = []" by simp
      have ifn: "(if i + 1 < length m then romanNumerals (m ! (i + 1)) else None) = None"
        using False by simp
      have step: "roman_loop m i v = roman_loop m (i + 1) (v + cur)"
        by (subst roman_loop.simps) (simp only: lt if_True cur ifn option.case)
      have "i + 1 \<le> length m" using lt by simp
      then have "roman_loop m (i + 1) (v + cur) = Some (v + cur + valueOf (drop (i + 1) m))"
        by (rule "1.IH"(1)[OF lt cur ifn 1(4)])
      moreover have "valueOf (drop i m) = cur"
        by (simp only: d1 e valueOf.simps cur_def)
      ultimately show ?thesis using step e by simp
    next
      case lt2: True
      define nxt where "nxt = symbol_value (m ! (i + 1))"
      have nxt: "romanNumerals (m ! (i + 1)) = Some nxt"
        unfolding nxt_def using 1(4) lt2 by (simp add: list_all_length romanNumerals_roman)
      have ifn: "(if i + 1 < length m then romanNumerals (m ! (i + 1)) else None) = Some nxt"
        using lt2 nxt by simp
      have d2: "drop (i + 1) m = m ! (i + 1) # drop (i + 2) m"
        using lt2 Cons_nth_drop_Suc[of "i + 1" m] by simp
      show ?thesis
      proof (cases "cur < nxt")
        case True
        have step: "roman_loop m i v = roman_loop m (i + 2) (v + (nxt - cur))"
          by (subst roman_loop.simps) (simp only: lt if_True cur ifn option.case True)
        have "i + 2 \<le> length m" using lt2 by simp
        then have "roman_loop m (i + 2) (v + (nxt - cur))
                = Some (v + (nxt - cur) + valueOf (drop (i + 2) m))"
          by (rule "1.IH"(2)[OF lt cur ifn True 1(4)])
        moreover have "valueOf (drop i m) = (nxt - cur) + valueOf (drop (i + 2) m)"
          using True unfolding cur_def nxt_def by (simp only: d1 d2 valueOf.simps if_True)
        ultimately show ?thesis using step by simp
      next
        case False
        have step: "roman_loop m i v = roman_loop m (i + 1) (v + cur)"
          by (subst roman_loop.simps) (simp only: lt if_True cur ifn option.case False if_False)
        have "i + 1 \<le> length m" using lt by simp
        then have "roman_loop m (i + 1) (v + cur) = Some (v + cur + valueOf (drop (i + 1) m))"
          by (rule "1.IH"(3)[OF lt cur ifn False 1(4)])
        moreover have "valueOf (drop i m) = cur + valueOf (drop (i + 1) m)"
          using False unfolding cur_def nxt_def by (simp only: d1 d2 valueOf.simps if_False)
        ultimately show ?thesis using step by simp
      qed
    qed
  qed
qed

lemma roman_loop_run: "list_all is_roman m \<Longrightarrow> roman_loop m 0 0 = Some (valueOf m)"
  using roman_loop_valueOf[of m 0 0] by simp

lemma rule14_matches_iff:
  "rule14_matches ms \<longleftrightarrow> (\<exists>m \<in> set ms. roman_loop m 0 0 = Some 35)"
  by (induction ms) auto

lemma rule14_iff:
  "rule14 pwd \<longleftrightarrow> (\<exists>r. maximal_run is_roman pwd r \<and> valueOf r = 35)"
proof -
  have "rule14 pwd \<longleftrightarrow> (\<exists>m \<in> set (runs is_roman pwd). roman_loop m 0 0 = Some 35)"
    by (auto simp: rule14_def Let_def match_global_Plus rule14_matches_iff)
  also have "\<dots> \<longleftrightarrow> (\<exists>r. maximal_run is_roman pwd r \<and> roman_loop r 0 0 = Some 35)"
    by (auto simp: runs_maximal)
  also have "\<dots> \<longleftrightarrow> (\<exists>r. maximal_run is_roman pwd r \<and> valueOf r = 35)"
  proof -
    have "maximal_run is_roman pwd r \<Longrightarrow> roman_loop r 0 0 = Some (valueOf r)" for r
      by (erule maximal_runE) (rule roman_loop_run)
    then show ?thesis by auto
  qed
  finally show ?thesis .
qed

lemma valueOf_examples:
  "valueOf (lit ''XXXV'') = 35" "valueOf (lit ''IV'') = 4" "valueOf (lit ''MCMXC'') = 1990"
  by (simp_all add: lit_def symbol_value_def romanNumerals_def)

lemma roman_loop_examples:
  "roman_loop (lit ''XXXV'') 0 0 = Some 35" "roman_loop (lit ''IV'') 0 0 = Some 4"
  "roman_loop (lit ''MCMXC'') 0 0 = Some 1990"
proof -
  have "list_all is_roman (lit ''XXXV'')" "list_all is_roman (lit ''IV'')"
    "list_all is_roman (lit ''MCMXC'')"
    by (simp_all add: lit_def is_roman_iff)
  then show "roman_loop (lit ''XXXV'') 0 0 = Some 35" "roman_loop (lit ''IV'') 0 0 = Some 4"
    "roman_loop (lit ''MCMXC'') 0 0 = Some 1990"
    by (simp_all add: roman_loop_run valueOf_examples)
qed

text \<open>
  Claim C4. Rule 14 is satisfied exactly by the candidates in which some maximal contiguous
  run of the upper-case characters I, V, X, L, C, D, M is worth 35 under the left-to-right
  scan of the specification (\<open>valueOf\<close>), which is the value the loop of the validator
  computes on such a run; lower-case letters are not in the class; and the loop gives 35 for
  XXXV, 4 for IV and 1990 for MCMXC.
\<close>

theorem rule14_roman_run_35:
  "(rule14 pwd \<longleftrightarrow> (\<exists>r. maximal_run is_roman pwd r \<and> valueOf r = 35))
   \<and> (list_all is_roman r \<longrightarrow> roman_loop r 0 0 = Some (valueOf r))
   \<and> (is_roman c \<longleftrightarrow> c \<in> set (lit ''IVXLCDM''))
   \<and> (c \<in> set (lit ''ivxlcdm'') \<longrightarrow> \<not> is_roman c)
   \<and> roman_loop (lit ''XXXV'') 0 0 = Some 35
   \<and> roman_loop (lit ''IV'') 0 0 = Some 4
   \<and> roman_loop (lit ''MCMXC'') 0 0 = Some 1990"
proof (intro conjI impI)
  show "rule14 pwd \<longleftrightarrow> (\<exists>r. maximal_run is_roman pwd r \<and> valueOf r = 35)"
    by (rule rule14_iff)
  show "roman_loop r 0 0 = Some (valueOf r)" if "list_all is_roman r"
    using that by (rule roman_loop_run)
  show "is_roman c \<longleftrightarrow> c \<in> set (lit ''IVXLCDM'')" by (simp add: is_roman_def)
  show "\<not> is_roman c" if "c \<in> set (lit ''ivxlcdm'')"
    using that by (auto simp: is_roman_iff lit_def)
qed (rule roman_loop_examples)+

theorem rule14_roman_run_35_witness:
  "maximal_run is_roman (lit ''abXXXVcd'') (lit ''XXXV'') \<and> valueOf (lit ''XXXV'') = 35
   \<and> rule14 (lit ''abXXXVcd'')
   \<and> list_all is_roman (lit ''XXXV'')
   \<and> roman_loop (lit ''XXXV'') 0 0 = Some (valueOf (lit ''XXXV''))
   \<and> 120 \<in> set (lit ''ivxlcdm'') \<and> \<not> is_roman 120
   \<and> \<not> rule14 (lit ''xxxv'')"
proof -
  have m: "maximal_run is_roman (lit ''abXXXVcd'') (lit ''XXXV'')"
    by (rule maximal_runI[of _ "lit ''ab''" _ "lit ''cd''"]) (simp_all add: lit_def is_roman_iff)
  have v: "valueOf (lit ''XXXV'') = 35" by (rule valueOf_examples)
  have a: "list_all is_roman (lit ''XXXV'')" by (simp add: lit_def is_roman_iff)
  have x: "120 \<in> set (lit ''ivxlcdm'')" by (simp add: lit_def)
  have n: "\<not> rule14 (lit ''xxxv'')" by (simp add: rule14_def lit_def is_roman_iff)
  show ?thesis
    using m v a x n rule14_roman_run_35 [of "lit ''abXXXVcd''" "lit ''XXXV''" 120] by blast
qed

subsection \<open>Proofs for the scorer\<close>

lemma length_pass2: "length (pass2 remaining xs) = length xs"
  by (induction remaining xs rule: pass2.induct) simp_all

text \<open>The earlier positions that hold the letter \<open>c\<close> without being exact.\<close>

lemma pass2_nth:
  "p < length xs \<Longrightarrow>
   pass2 remaining xs ! p =
     (if fst (xs ! p) = snd (xs ! p) then Exact
      else if length (filter (\<lambda>(g, t). g = fst (xs ! p) \<and> g \<noteq> t) (take p xs))
              < remaining (fst (xs ! p))
           then Partial else Absent)"
proof (induction remaining xs arbitrary: p rule: pass2.induct)
  case (1 remaining)
  then show ?case by simp
next
  case (2 remaining g t rest)
  show ?case
  proof (cases p)
    case 0
    then show ?thesis by simp
  next
    case (Suc q)
    with 2(4) have q: "q < length rest" by simp
    show ?thesis
    proof (cases "g = t")
      case True
      then show ?thesis using 2(1)[OF True q] Suc by simp
    next
      case False
      show ?thesis
      proof (cases "remaining g > 0")
        case True
        then show ?thesis using 2(2)[OF False True q] Suc False by auto
      next
        case z: False
        then show ?thesis using 2(3)[OF False z q] Suc False by auto
      qed
    qed
  qed
qed

lemma length_filter_index:
  "length (filter (\<lambda>i. P (xs ! i)) [0..<length xs]) = length (filter P xs)"
proof -
  have "filter P xs = filter P (map ((!) xs) [0..<length xs])" by (simp add: map_nth)
  also have "\<dots> = map ((!) xs) (filter (P \<circ> (!) xs) [0..<length xs])" by (rule filter_map)
  finally show ?thesis by (simp add: comp_def)
qed

lemma length_filter_index_take:
  assumes "p \<le> length xs"
  shows "length (filter (\<lambda>i. P (xs ! i)) [0..<p]) = length (filter P (take p xs))"
proof -
  have "length (filter (\<lambda>i. P (take p xs ! i)) [0..<length (take p xs)])
          = length (filter P (take p xs))"
    by (rule length_filter_index)
  moreover have "length (take p xs) = p" using assms by simp
  moreover have "filter (\<lambda>i. P (take p xs ! i)) [0..<p] = filter (\<lambda>i. P (xs ! i)) [0..<p]"
    by (rule filter_cong) simp_all
  ultimately show ?thesis by simp
qed


lemma js_includes_single: "js_includes s [c] \<longleftrightarrow> c \<in> set s"
  by (induction s) auto

lemma filter_eq_pos: "0 < length (filter (\<lambda>l. l = c) xs) \<longleftrightarrow> c \<in> set xs"
  by (induction xs) auto

lemma letter_counts:
  assumes len: "length G = length T" and p: "p < length G"
  shows "length (filter (\<lambda>i. char_at G i = char_at G p \<and> char_at T i = char_at G i)
                  [0..<length G])
           = length (filter (\<lambda>(g, t). g = t \<and> g = G ! p) (zip G T))"
    and "length (filter (\<lambda>i. char_at G i = char_at G p \<and> char_at T i \<noteq> char_at G i)
                  [0..<p])
           = length (filter (\<lambda>(g, t). g = G ! p \<and> g \<noteq> t) (take p (zip G T)))"
proof -
  let ?Z = "zip G T"
  have lz: "length ?Z = length G" using len by simp
  have "filter (\<lambda>i. char_at G i = char_at G p \<and> char_at T i = char_at G i) [0..<length G]
          = filter (\<lambda>i. (\<lambda>(g, t). g = t \<and> g = G ! p) (?Z ! i)) [0..<length ?Z]"
    unfolding lz using len p by (intro filter_cong refl) (auto simp: char_at_def)
  then show "length (filter (\<lambda>i. char_at G i = char_at G p \<and> char_at T i = char_at G i)
                  [0..<length G])
           = length (filter (\<lambda>(g, t). g = t \<and> g = G ! p) ?Z)"
    by (simp only: length_filter_index)
  have "filter (\<lambda>i. char_at G i = char_at G p \<and> char_at T i \<noteq> char_at G i) [0..<p]
          = filter (\<lambda>i. (\<lambda>(g, t). g = G ! p \<and> g \<noteq> t) (?Z ! i)) [0..<p]"
    using len p by (intro filter_cong refl) (auto simp: char_at_def)
  moreover have "p \<le> length ?Z" using lz p by simp
  ultimately show "length (filter (\<lambda>i. char_at G i = char_at G p \<and> char_at T i \<noteq> char_at G i)
                  [0..<p])
           = length (filter (\<lambda>(g, t). g = G ! p \<and> g \<noteq> t) (take p ?Z))"
    by (simp only: length_filter_index_take)
qed

lemma score_nth:
  assumes len: "length G = length T" and p: "p < length G"
  shows "score G T ! p =
     (if G ! p = T ! p then Exact
      else if length (filter (\<lambda>(g, t). g = t \<and> g = G ! p) (zip G T))
              + length (filter (\<lambda>(g, t). g = G ! p \<and> g \<noteq> t) (take p (zip G T)))
              < length (filter (\<lambda>l. l = G ! p) T)
           then Partial else Absent)"
proof -
  have "p < length (zip G T)" using len p by simp
  then show ?thesis
    unfolding score_def using len p by (subst pass2_nth) (auto simp: after_exact_def)
qed

lemma getLetterStatus_score:
  assumes len: "length (toUpperCase h guess) = length (toUpperCase h (wordleWord ld))"
      and p: "p < length (toUpperCase h guess)"
  shows "getLetterStatus h (Some ld) p guess
           = status_class (score (toUpperCase h guess) (toUpperCase h (wordleWord ld)) ! p)"
proof -
  define G where "G = toUpperCase h guess"
  define T where "T = toUpperCase h (wordleWord ld)"
  have len': "length G = length T" and p': "p < length G" and pT: "p < length T"
    using len p by (simp_all add: G_def T_def)
  define lc where "lc = length (filter (\<lambda>l. l = G ! p) T)"
  define cp where "cp = length (filter (\<lambda>(g, t). g = t \<and> g = G ! p) (zip G T))"
  define ab where "ab = length (filter (\<lambda>(g, t). g = G ! p \<and> g \<noteq> t) (take p (zip G T)))"
  have cg: "char_at G p = Some (G ! p)" and ct: "char_at T p = Some (T ! p)"
    using p' pT by (simp_all add: char_at_def)
  have lc': "length (filter (\<lambda>l. Some l = char_at G p) T) = lc"
    unfolding lc_def cg by (rule arg_cong[where f=length], rule filter_cong) auto
  note counts = letter_counts[OF len' p', folded cp_def ab_def]
  have inc: "js_includes T [G ! p] \<longleftrightarrow> 0 < lc"
    unfolding lc_def filter_eq_pos by (rule js_includes_single)
  have "getLetterStatus h (Some ld) p guess =
          (if G ! p = T ! p then lit ''bg-green-500 text-white''
           else if js_includes T [G ! p] \<and> cp + ab < lc then lit ''bg-yellow-500 text-white''
           else lit ''bg-gray-400 text-white'')"
    unfolding getLetterStatus_def G_def[symmetric] T_def[symmetric] Let_def option.case
      counts lc'
    by (simp add: cg ct)
  also have "\<dots> = status_class (score G T ! p)"
    unfolding score_nth[OF len' p', folded cp_def ab_def lc_def] using inc by auto
  finally show ?thesis unfolding G_def T_def .
qed


lemma exact_le_count:
  "length (filter (\<lambda>(g, t). g = t \<and> g = c) (zip G T)) \<le> length (filter (\<lambda>l. l = c) T)"
proof (induction T arbitrary: G)
  case Nil
  show ?case by simp
next
  case (Cons t T)
  show ?case
  proof (cases G)
    case Nil
    then show ?thesis by simp
  next
    case (Cons g G')
    with Cons.IH[of G'] show ?thesis by auto
  qed
qed

lemma filter_one_index:
  assumes "length (filter Q [0..<n]) = 1"
  shows "\<exists>e. e < n \<and> Q e \<and> (\<forall>i. i < n \<and> Q i \<longrightarrow> i = e)"
proof -
  have "card ({i. Q i} \<inter> set [0..<n]) = 1"
    using assms distinct_length_filter[of "[0..<n]" Q] by simp
  then obtain e where e: "{i. Q i} \<inter> set [0..<n] = {e}" by (rule card_1_singletonE)
  then have "e \<in> {i. Q i} \<inter> set [0..<n]" by simp
  moreover have "i = e" if "i < n \<and> Q i" for i
  proof -
    have "i \<in> {i. Q i} \<inter> set [0..<n]" using that by simp
    then show ?thesis unfolding e by simp
  qed
  ultimately show ?thesis by auto
qed

lemma score_not_absent:
  assumes len: "length G = length T" and p: "p < length G"
  shows "score G T ! p \<noteq> Absent \<longleftrightarrow>
           G ! p = T ! p
           \<or> length (filter (\<lambda>i. G ! i = T ! i \<and> G ! i = G ! p) [0..<length G])
             + length (filter (\<lambda>i. G ! i = G ! p \<and> G ! i \<noteq> T ! i) [0..<p])
             < length (filter (\<lambda>l. l = G ! p) T)"
proof -
  let ?Z = "zip G T"
  have lz: "length ?Z = length G" using len by simp
  have a: "filter (\<lambda>i. G ! i = T ! i \<and> G ! i = G ! p) [0..<length G]
             = filter (\<lambda>i. (\<lambda>(g, t). g = t \<and> g = G ! p) (?Z ! i)) [0..<length ?Z]"
    unfolding lz using len by (intro filter_cong refl) auto
  have b: "filter (\<lambda>i. G ! i = G ! p \<and> G ! i \<noteq> T ! i) [0..<p]
             = filter (\<lambda>i. (\<lambda>(g, t). g = G ! p \<and> g \<noteq> t) (?Z ! i)) [0..<p]"
    using len p by (intro filter_cong refl) auto
  have pz: "p \<le> length ?Z" using lz p by simp
  show ?thesis
    unfolding score_nth[OF len p] a b length_filter_index length_filter_index_take[OF pz]
    by simp
qed

lemma score_single_occurrence:
  assumes len: "length G = length T"
      and one: "length (filter (\<lambda>l. l = c) T) = 1"
      and occ: "c \<in> set G"
  shows "\<exists>p. p < length G \<and> G ! p = c \<and> score G T ! p \<noteq> Absent
               \<and> (\<forall>q. q < length G \<and> G ! q = c \<and> score G T ! q \<noteq> Absent \<longrightarrow> q = p)"
proof -
  let ?n = "length G"
  define E where "E = (\<lambda>i. G ! i = T ! i \<and> G ! i = c)"
  define cp where "cp = length (filter E [0..<?n])"
  define ab where "ab = (\<lambda>p. length (filter (\<lambda>i. G ! i = c \<and> G ! i \<noteq> T ! i) [0..<p]))"
  have na: "score G T ! p \<noteq> Absent \<longleftrightarrow> G ! p = T ! p \<or> cp + ab p < 1"
    if "p < ?n" "G ! p = c" for p
    using score_not_absent[OF len that(1)] that(2) one unfolding cp_def ab_def E_def by simp
  have "cp \<le> 1"
  proof -
    have "filter E [0..<?n]
            = filter (\<lambda>i. (\<lambda>(g, t). g = t \<and> g = c) (zip G T ! i)) [0..<length (zip G T)]"
      unfolding E_def using len by (intro filter_cong) auto
    then have "cp = length (filter (\<lambda>(g, t). g = t \<and> g = c) (zip G T))"
      unfolding cp_def by (simp only: length_filter_index)
    then show ?thesis using exact_le_count[of c G T] one by simp
  qed
  then consider "cp = 1" | "cp = 0" by linarith
  then show ?thesis
  proof cases
    case 1
    then have "length (filter E [0..<?n]) = 1" by (simp only: cp_def)
    then have "\<exists>e. e < ?n \<and> E e \<and> (\<forall>i. i < ?n \<and> E i \<longrightarrow> i = e)" by (rule filter_one_index)
    then obtain e where e: "e < ?n" "E e" and u: "\<forall>i. i < ?n \<and> E i \<longrightarrow> i = e"
      by (elim exE conjE)
    have ec: "G ! e = c" and ex: "G ! e = T ! e" using e(2) by (simp_all add: E_def)
    have nae: "score G T ! e \<noteq> Absent" using na[OF e(1) ec] ex by simp
    have "\<forall>q. q < ?n \<and> G ! q = c \<and> score G T ! q \<noteq> Absent \<longrightarrow> q = e"
    proof (intro allI impI, elim conjE)
      fix q assume q: "q < ?n" "G ! q = c" "score G T ! q \<noteq> Absent"
      from q(3) na[OF q(1,2)] 1 have "G ! q = T ! q" by simp
      with q(2) have "E q" by (simp add: E_def)
      with q(1) u show "q = e" by simp
    qed
    with e(1) ec nae show ?thesis by (intro exI[of _ e] conjI)
  next
    case 2
    then have "filter E [0..<?n] = []" by (simp add: cp_def)
    then have noex: "\<not> E i" if "i < ?n" for i
      using that by (simp add: filter_empty_conv)
    define p where "p = (LEAST i. i < ?n \<and> G ! i = c)"
    from occ obtain j where j: "j < ?n \<and> G ! j = c" unfolding in_set_conv_nth by fast
    then have p: "p < ?n \<and> G ! p = c" unfolding p_def by (rule LeastI)
    have before: "G ! i \<noteq> c" if "i < p" for i
    proof
      assume "G ! i = c"
      with that p have "i < ?n \<and> G ! i = c" by simp
      then have "p \<le> i" unfolding p_def by (rule Least_le)
      with that show False by simp
    qed
    have nap: "score G T ! q \<noteq> Absent \<longleftrightarrow> (\<forall>i < q. G ! i \<noteq> c)"
      if q: "q < ?n" "G ! q = c" for q
    proof -
      have nx: "G ! q \<noteq> T ! q" using noex[OF q(1)] q(2) by (simp add: E_def)
      have "ab q = 0 \<longleftrightarrow> (\<forall>i < q. \<not> (G ! i = c \<and> G ! i \<noteq> T ! i))"
        unfolding ab_def by (auto simp: filter_empty_conv)
      also have "\<dots> \<longleftrightarrow> (\<forall>i < q. G ! i \<noteq> c)"
      proof (intro iffI allI impI)
        fix i assume a: "\<forall>i<q. \<not> (G ! i = c \<and> G ! i \<noteq> T ! i)" and i: "i < q"
        then have "i < ?n" using q(1) by simp
        then have "\<not> E i" by (rule noex)
        with a i show "G ! i \<noteq> c" unfolding E_def by metis
      next
        fix i assume "\<forall>i<q. G ! i \<noteq> c" "i < q"
        then show "\<not> (G ! i = c \<and> G ! i \<noteq> T ! i)" by simp
      qed
      finally have "ab q = 0 \<longleftrightarrow> (\<forall>i < q. G ! i \<noteq> c)" .
      then show ?thesis using na[OF q] 2 nx by simp
    qed
    have nap0: "score G T ! p \<noteq> Absent" using nap[of p] p before by simp
    have "\<forall>q. q < ?n \<and> G ! q = c \<and> score G T ! q \<noteq> Absent \<longrightarrow> q = p"
    proof (intro allI impI, elim conjE)
      fix q assume q: "q < ?n" "G ! q = c" "score G T ! q \<noteq> Absent"
      from q nap[OF q(1,2)] have nb: "\<forall>i < q. G ! i \<noteq> c" by simp
      have "q < ?n \<and> G ! q = c" using q by simp
      then have "p \<le> q" unfolding p_def by (rule Least_le)
      moreover have "\<not> p < q" using nb p by auto
      ultimately show "q = p" by simp
    qed
    with p nap0 show ?thesis by (intro exI[of _ p] conjI) simp_all
  qed
qed

lemma score_leftmost_first:
  assumes len: "length G = length T" and q: "q < length G" and pq: "p < q"
      and same: "G ! p = G ! q" and part: "score G T ! q = Partial"
  shows "score G T ! p \<noteq> Absent"
proof -
  have p: "p < length G" using pq q by simp
  let ?cp = "length (filter (\<lambda>i. G ! i = T ! i \<and> G ! i = G ! q) [0..<length G])"
  let ?ab = "\<lambda>k. length (filter (\<lambda>i. G ! i = G ! q \<and> G ! i \<noteq> T ! i) [0..<k])"
  have "score G T ! q \<noteq> Absent" and nx: "G ! q \<noteq> T ! q"
    using part score_nth[OF len q] by (auto split: if_splits)
  then have lt: "?cp + ?ab q < length (filter (\<lambda>l. l = G ! q) T)"
    using score_not_absent[OF len q] by simp
  have "[0..<p + (q - p)] = [0..<p] @ [p..<p + (q - p)]" by (rule upt_add_eq_append) simp
  then have "[0..<q] = [0..<p] @ [p..<q]" using pq by simp
  then have "?ab p \<le> ?ab q" by simp
  with lt have "?cp + ?ab p < length (filter (\<lambda>l. l = G ! q) T)" by linarith
  then show ?thesis using score_not_absent[OF len p] same by simp
qed


lemma status_class_eq: "status_class x = status_class y \<longleftrightarrow> x = y"
  by (cases x; cases y) (simp_all add: lit_def)

text \<open>
  Claim C2. For a guess and a target that are five letters long once in upper case, the
  colours that \<open>getLetterStatus\<close> gives to the five positions are the classifications of
  the two-pass scorer of the specification. Hence a letter that occurs once in the target
  and at least once in the guess has exactly one position that is not \<open>Absent\<close>, and a
  \<open>Partial\<close> is only given when every earlier occurrence of the letter got its own match.
\<close>

theorem letter_status_two_pass:
  assumes "length (toUpperCase h guess) = 5"
      and "length (toUpperCase h (wordleWord ld)) = 5"
  shows "map (\<lambda>p. getLetterStatus h (Some ld) p guess) [0..<5]
           = map status_class (score (toUpperCase h guess) (toUpperCase h (wordleWord ld)))
     \<and> (\<forall>c. length (filter (\<lambda>l. l = c) (toUpperCase h (wordleWord ld))) = 1
              \<and> c \<in> set (toUpperCase h guess) \<longrightarrow>
            (\<exists>p. p < 5 \<and> toUpperCase h guess ! p = c
               \<and> getLetterStatus h (Some ld) p guess \<noteq> status_class Absent
               \<and> (\<forall>q. q < 5 \<and> toUpperCase h guess ! q = c
                       \<and> getLetterStatus h (Some ld) q guess \<noteq> status_class Absent
                     \<longrightarrow> q = p)))
     \<and> (\<forall>p q. p < q \<and> q < 5 \<and> toUpperCase h guess ! p = toUpperCase h guess ! q
              \<and> getLetterStatus h (Some ld) q guess = status_class Partial
            \<longrightarrow> getLetterStatus h (Some ld) p guess \<noteq> status_class Absent)"
proof -
  define G where "G = toUpperCase h guess"
  define T where "T = toUpperCase h (wordleWord ld)"
  have len: "length G = length T" and n: "length G = 5" using assms by (simp_all add: G_def T_def)
  have st: "getLetterStatus h (Some ld) p guess = status_class (score G T ! p)" if "p < 5" for p
    unfolding G_def T_def using assms that by (intro getLetterStatus_score) simp_all
  have ls: "length (score G T) = 5" using len n by (simp add: score_def length_pass2)
  have A: "map (\<lambda>p. getLetterStatus h (Some ld) p guess) [0..<5] = map status_class (score G T)"
  proof (rule nth_equalityI)
    show "length (map (\<lambda>p. getLetterStatus h (Some ld) p guess) [0..<5])
            = length (map status_class (score G T))"
      using ls by simp
  next
    fix i assume "i < length (map (\<lambda>p. getLetterStatus h (Some ld) p guess) [0..<5])"
    then have i: "i < 5" by simp
    then have "map (\<lambda>p. getLetterStatus h (Some ld) p guess) [0..<5] ! i
                 = getLetterStatus h (Some ld) i guess"
      by (simp del: upt_Suc)
    also have "\<dots> = status_class (score G T ! i)" using i by (rule st)
    also have "\<dots> = map status_class (score G T) ! i" using i ls by simp
    finally show "map (\<lambda>p. getLetterStatus h (Some ld) p guess) [0..<5] ! i
                    = map status_class (score G T) ! i" .
  qed
  have B: "\<exists>p. p < 5 \<and> G ! p = c
               \<and> getLetterStatus h (Some ld) p guess \<noteq> status_class Absent
               \<and> (\<forall>q. q < 5 \<and> G ! q = c
                       \<and> getLetterStatus h (Some ld) q guess \<noteq> status_class Absent
                     \<longrightarrow> q = p)"
    if c: "length (filter (\<lambda>l. l = c) T) = 1 \<and> c \<in> set G" for c
  proof -
    from score_single_occurrence[OF len] c
    obtain p where p: "p < length G" "G ! p = c" "score G T ! p \<noteq> Absent"
      and u: "\<forall>q. q < length G \<and> G ! q = c \<and> score G T ! q \<noteq> Absent \<longrightarrow> q = p"
      by blast
    have p5: "p < 5" using p(1) n by simp
    have "getLetterStatus h (Some ld) p guess \<noteq> status_class Absent"
      unfolding st[OF p5] status_class_eq by (rule p(3))
    moreover have "\<forall>q. q < 5 \<and> G ! q = c
                       \<and> getLetterStatus h (Some ld) q guess \<noteq> status_class Absent
                     \<longrightarrow> q = p"
    proof (intro allI impI, elim conjE)
      fix q assume q: "q < 5" "G ! q = c"
        "getLetterStatus h (Some ld) q guess \<noteq> status_class Absent"
      then have "score G T ! q \<noteq> Absent" unfolding st[OF q(1)] status_class_eq by simp
      with q(1,2) u n show "q = p" by simp
    qed
    ultimately show ?thesis using p5 p(2) by (intro exI[of _ p] conjI)
  qed
  have C: "getLetterStatus h (Some ld) p guess \<noteq> status_class Absent"
    if pq: "p < q \<and> q < 5 \<and> G ! p = G ! q
              \<and> getLetterStatus h (Some ld) q guess = status_class Partial" for p q
  proof -
    have q5: "q < 5" and p5: "p < 5" using pq by simp_all
    have "getLetterStatus h (Some ld) q guess = status_class Partial" using pq by simp
    then have "score G T ! q = Partial" unfolding st[OF q5] status_class_eq .
    then have "score G T ! p \<noteq> Absent"
      using score_leftmost_first[OF len, of q p] pq n by simp
    then show ?thesis unfolding st[OF p5] status_class_eq .
  qed
  show ?thesis
    unfolding G_def[symmetric] T_def[symmetric] using A B C by (intro conjI allI impI)
qed

theorem letter_status_two_pass_witness:
  "length (toUpperCase utc_host (lit ''allow'')) = 5
   \<and> length (toUpperCase utc_host (wordleWord sample_context)) = 5
   \<and> score (toUpperCase utc_host (lit ''allow'')) (toUpperCase utc_host (wordleWord sample_context))
       = [Absent, Partial, Absent, Partial, Partial]
   \<and> map (\<lambda>p. getLetterStatus utc_host (Some sample_context) p (lit ''allow'')) [0..<5]
       = map status_class [Absent, Partial, Absent, Partial, Partial]"
proof -
  have g: "toUpperCase utc_host (lit ''allow'') = [65, 76, 76, 79, 87]"
    by (simp add: utc_host_def ascii_upper_def lit_def)
  have t: "toUpperCase utc_host (wordleWord sample_context) = [87, 79, 79, 76, 83]"
    by (simp add: utc_host_def ascii_upper_def lit_def sample_context_def)
  have s: "score [65, 76, 76, 79, 87] [87, 79, 79, 76, 83]
             = [Absent, Partial, Absent, Partial, Partial]"
    by (simp add: score_def after_exact_def)
  have l: "length (toUpperCase utc_host (lit ''allow'')) = 5"
    "length (toUpperCase utc_host (wordleWord sample_context)) = 5"
    by (simp_all add: g t)
  from letter_status_two_pass [OF l] show ?thesis
    by (simp only: g t s list.size) simp
qed

subsection \<open>Proofs for the evaluation pass\<close>

text \<open>What one rule contributes does not depend on what was accumulated before it.\<close>

lemma evaluate_rule_fst:
  "fst (evaluate_rule ld pwd acc r) = fst acc \<union> fst (evaluate_rule ld pwd ({}, Map.empty) r)"
  by (simp add: evaluate_rule_def split: option.splits)

lemma evaluate_rule_snd:
  "snd (evaluate_rule ld pwd acc r) i =
     (case snd (evaluate_rule ld pwd ({}, Map.empty) r) i of
        None \<Rightarrow> snd acc i | Some m \<Rightarrow> Some m)"
  by (simp add: evaluate_rule_def split: option.splits)

lemma evaluate_rule_snd_other:
  "i \<noteq> rule_id r \<Longrightarrow> snd (evaluate_rule ld pwd acc r) i = snd acc i"
  by (simp add: evaluate_rule_def split: option.splits)

lemma foldl_evaluate_fst:
  "fst (foldl (evaluate_rule ld pwd) acc rs) =
     fst acc \<union> (\<Union>r \<in> set rs. fst (evaluate_rule ld pwd ({}, Map.empty) r))"
proof (induction rs arbitrary: acc)
  case Nil
  show ?case by simp
next
  case (Cons r rs)
  show ?case
    unfolding foldl_Cons Cons.IH[of "evaluate_rule ld pwd acc r"]
    by (subst evaluate_rule_fst) auto
qed

lemma foldl_evaluate_snd_other:
  "i \<notin> rule_id ` set rs \<Longrightarrow> snd (foldl (evaluate_rule ld pwd) acc rs) i = snd acc i"
proof (induction rs arbitrary: acc)
  case Nil
  show ?case by simp
next
  case (Cons r rs)
  then have "i \<noteq> rule_id r" "i \<notin> rule_id ` set rs" by auto
  then show ?case
    unfolding foldl_Cons using Cons.IH[of "evaluate_rule ld pwd acc r"]
    by (simp add: evaluate_rule_snd_other)
qed

lemma foldl_evaluate_snd:
  "distinct (map rule_id rs) \<Longrightarrow> r \<in> set rs \<Longrightarrow>
   snd (foldl (evaluate_rule ld pwd) acc rs) (rule_id r) =
     (case snd (evaluate_rule ld pwd ({}, Map.empty) r) (rule_id r) of
        None \<Rightarrow> snd acc (rule_id r) | Some m \<Rightarrow> Some m)"
proof (induction rs arbitrary: acc)
  case Nil
  then show ?case by simp
next
  case (Cons a rs)
  from Cons.prems have d: "distinct (map rule_id rs)" and na: "rule_id a \<notin> rule_id ` set rs"
    by simp_all
  show ?case
  proof (cases "r = a")
    case True
    show ?thesis
      unfolding True foldl_Cons using na
      by (simp add: foldl_evaluate_snd_other evaluate_rule_snd[of ld pwd acc a])
  next
    case False
    with Cons.prems have r: "r \<in> set rs" by simp
    with na have "rule_id r \<noteq> rule_id a" by (metis imageI)
    then have e: "snd (evaluate_rule ld pwd acc a) (rule_id r) = snd acc (rule_id r)"
      by (rule evaluate_rule_snd_other)
    show ?thesis
      unfolding foldl_Cons Cons.IH[OF d r, of "evaluate_rule ld pwd acc a"] e by (rule refl)
  qed
qed

text \<open>With distinct ids, a rule's verdict and feedback are those of the rule alone.\<close>

lemma evaluate_satisfied:
  assumes "distinct (map rule_id rs)" "r \<in> set rs"
  shows "rule_id r \<in> fst (evaluate rs ld pwd) \<longleftrightarrow>
           (\<not> requiresLiveData r \<or> ld \<noteq> None) \<and> validator r pwd"
proof -
  have one: "fst (evaluate_rule ld pwd ({}, Map.empty) x) =
               (if (\<not> requiresLiveData x \<or> ld \<noteq> None) \<and> validator x pwd then {rule_id x} else {})"
    for x by (simp add: evaluate_rule_def split: option.splits)
  have inj: "inj_on rule_id (set rs)" using assms(1) by (simp add: distinct_map)
  have "rule_id r \<in> fst (evaluate rs ld pwd) \<longleftrightarrow>
          (\<exists>x \<in> set rs. rule_id r \<in> fst (evaluate_rule ld pwd ({}, Map.empty) x))"
    unfolding evaluate_def foldl_evaluate_fst by simp
  also have "\<dots> \<longleftrightarrow> (\<exists>x \<in> set rs. rule_id x = rule_id r
              \<and> (\<not> requiresLiveData x \<or> ld \<noteq> None) \<and> validator x pwd)"
    unfolding one by (intro bex_cong refl) (simp split: if_splits, metis)
  also have "\<dots> \<longleftrightarrow> (\<not> requiresLiveData r \<or> ld \<noteq> None) \<and> validator r pwd"
    using inj assms(2) by (auto dest: inj_onD)
  finally show ?thesis .
qed

lemma evaluate_feedback:
  assumes "distinct (map rule_id rs)" "r \<in> set rs"
  shows "snd (evaluate rs ld pwd) (rule_id r) =
           (if (\<not> requiresLiveData r \<or> ld \<noteq> None) \<and> \<not> validator r pwd then
              (case validationFeedback r of
                 None \<Rightarrow> None
               | Some f \<Rightarrow> (case f pwd of
                              None \<Rightarrow> None
                            | Some m \<Rightarrow> if m \<noteq> [] then Some m else None))
            else None)"
  unfolding evaluate_def foldl_evaluate_snd[OF assms]
  by (simp add: evaluate_rule_def split: option.splits)

lemma rules_ids: "map rule_id (rules h clk ld) = [1..<26]"
  by (simp add: rules_def upt_conv_Cons del: upt_Suc)

lemma rules_distinct: "distinct (map rule_id (rules h clk ld))"
  unfolding rules_ids by simp


lemma effect_completed:
  "completedRules (evaluation_effect h clk st) =
     fst (evaluate (rules h clk (liveData st)) (liveData st) (password st))"
  by (simp add: evaluation_effect_def Let_def)

lemma effect_feedback:
  "feedbackState (evaluation_effect h clk st) =
     snd (evaluate (rules h clk (liveData st)) (liveData st) (password st))"
  by (simp add: evaluation_effect_def Let_def)

subsection \<open>Rules that wait for the session context\<close>

lemma context_rule_skipped:
  assumes "distinct (map rule_id rs)" "r \<in> set rs" "requiresLiveData r"
  shows "rule_id r \<notin> fst (evaluate rs None pwd) \<and> snd (evaluate rs None pwd) (rule_id r) = None"
  using evaluate_satisfied[OF assms(1,2), of None pwd] evaluate_feedback[OF assms(1,2), of None pwd]
    assms(3) by simp

lemma evaluate_rule_no_context:
  "requiresLiveData r \<Longrightarrow>
   evaluate_rule None pwd acc (r\<lparr>validator := v, validationFeedback := f\<rparr>)
     = evaluate_rule None pwd acc r"
  by (simp add: evaluate_rule_def)

lemma evaluate_ignores_context_rules:
  "evaluate (map (\<lambda>r. if requiresLiveData r
                       then r\<lparr>validator := v (rule_id r), validationFeedback := f (rule_id r)\<rparr>
                       else r) rs) None pwd
     = evaluate rs None pwd"
proof -
  have "foldl (evaluate_rule None pwd) acc
          (map (\<lambda>r. if requiresLiveData r
                       then r\<lparr>validator := v (rule_id r), validationFeedback := f (rule_id r)\<rparr>
                       else r) rs)
        = foldl (evaluate_rule None pwd) acc rs" for acc
    by (induction rs arbitrary: acc) (simp_all add: evaluate_rule_no_context)
  then show ?thesis by (simp add: evaluate_def)
qed

lemma context_rule_ids:
  "map rule_id (filter requiresLiveData (rules h clk ld)) = [8, 9, 11, 12, 21, 22, 23]"
  by (simp add: rules_def)

text \<open>
  Claim C5. Without a session context, a rule that requires it is neither counted as
  satisfied nor given a feedback entry, and its predicate and feedback function are not
  consulted: replacing them by any other functions leaves the result of the evaluation
  unchanged. The rules concerned are 8, 9, 11, 12, 21, 22 and 23.
\<close>

theorem context_rules_pending:
  "(\<forall>r \<in> set (rules h clk None). requiresLiveData r \<longrightarrow>
       rule_id r \<notin> fst (evaluate (rules h clk None) None pwd)
       \<and> snd (evaluate (rules h clk None) None pwd) (rule_id r) = None)
   \<and> map rule_id (filter requiresLiveData (rules h clk None)) = [8, 9, 11, 12, 21, 22, 23]
   \<and> evaluate (map (\<lambda>r. if requiresLiveData r
                          then r\<lparr>validator := v (rule_id r), validationFeedback := f (rule_id r)\<rparr>
                          else r) (rules h clk None)) None pwd
       = evaluate (rules h clk None) None pwd"
proof (intro conjI ballI impI)
  fix r assume r: "r \<in> set (rules h clk None)" "requiresLiveData r"
  from context_rule_skipped[OF rules_distinct r]
  show "rule_id r \<notin> fst (evaluate (rules h clk None) None pwd)"
    and "snd (evaluate (rules h clk None) None pwd) (rule_id r) = None"
    by simp_all
next
  show "map rule_id (filter requiresLiveData (rules h clk None)) = [8, 9, 11, 12, 21, 22, 23]"
    by (rule context_rule_ids)
next
  show "evaluate (map (\<lambda>r. if requiresLiveData r
                          then r\<lparr>validator := v (rule_id r), validationFeedback := f (rule_id r)\<rparr>
                          else r) (rules h clk None)) None pwd
       = evaluate (rules h clk None) None pwd"
    by (rule evaluate_ignores_context_rules)
qed

theorem context_rules_pending_witness:
  "rules utc_host (0, 0) None ! 7 \<in> set (rules utc_host (0, 0) None)
   \<and> requiresLiveData (rules utc_host (0, 0) None ! 7)
   \<and> rule_id (rules utc_host (0, 0) None ! 7) = 8
   \<and> 8 \<notin> fst (evaluate (rules utc_host (0, 0) None) None (lit ''dag 64''))
   \<and> snd (evaluate (rules utc_host (0, 0) None) None (lit ''dag 64'')) 8 = None"
proof -
  have m: "rules utc_host (0, 0) None ! 7 \<in> set (rules utc_host (0, 0) None)"
    by (rule nth_mem) (simp add: rules_def)
  have q: "requiresLiveData (rules utc_host (0, 0) None ! 7)"
    and i: "rule_id (rules utc_host (0, 0) None ! 7) = 8"
    by (simp_all add: rules_def)
  have "\<forall>r \<in> set (rules utc_host (0, 0) None). requiresLiveData r \<longrightarrow>
       rule_id r \<notin> fst (evaluate (rules utc_host (0, 0) None) None (lit ''dag 64''))
       \<and> snd (evaluate (rules utc_host (0, 0) None) None (lit ''dag 64'')) (rule_id r) = None"
    using context_rules_pending [of utc_host "(0, 0)" "lit ''dag 64''"] by (rule conjunct1)
  from this m have "requiresLiveData (rules utc_host (0, 0) None ! 7) \<longrightarrow>
       rule_id (rules utc_host (0, 0) None ! 7)
         \<notin> fst (evaluate (rules utc_host (0, 0) None) None (lit ''dag 64''))
       \<and> snd (evaluate (rules utc_host (0, 0) None) None (lit ''dag 64''))
           (rule_id (rules utc_host (0, 0) None ! 7)) = None"
    by (rule bspec)
  from this q have "rule_id (rules utc_host (0, 0) None ! 7)
         \<notin> fst (evaluate (rules utc_host (0, 0) None) None (lit ''dag 64''))
       \<and> snd (evaluate (rules utc_host (0, 0) None) None (lit ''dag 64''))
           (rule_id (rules utc_host (0, 0) None ! 7)) = None"
    by (rule mp)
  then have "8 \<notin> fst (evaluate (rules utc_host (0, 0) None) None (lit ''dag 64''))
       \<and> snd (evaluate (rules utc_host (0, 0) None) None (lit ''dag 64'')) 8 = None"
    unfolding i .
  with m q i show ?thesis by (intro conjI) (elim conjE, assumption)+
qed


subsection \<open>The geography rule and its feedback\<close>

lemma rule21_in_rules:
  "\<lparr>rule_id = 21, validator = rule21 h ld, requiresLiveData = True,
     validationFeedback = Some (feedback21 h ld)\<rparr> \<in> set (rules h clk ld)"
  by (simp add: rules_def)

lemma rule21_satisfied:
  "21 \<in> fst (evaluate (rules h clk (Some ctx)) (Some ctx) pwd) \<longleftrightarrow> rule21 h (Some ctx) pwd"
  using evaluate_satisfied[OF rules_distinct[of h clk "Some ctx"]
      rule21_in_rules[of h "Some ctx" clk], of "Some ctx" pwd]
  by simp

lemma rule21_feedback:
  "snd (evaluate (rules h clk (Some ctx)) (Some ctx) pwd) 21 =
     (if rule21 h (Some ctx) pwd then None
      else (case feedback21 h (Some ctx) pwd of
              None \<Rightarrow> None
            | Some m \<Rightarrow> if m \<noteq> [] then Some m else None))"
  using evaluate_feedback[OF rules_distinct[of h clk "Some ctx"]
      rule21_in_rules[of h "Some ctx" clk], of "Some ctx" pwd]
  by simp

lemma feedback21_wrong_country:
  assumes "\<exists>c \<in> set countries. js_includes (toLowerCase h pwd) c"
      and "\<not> js_includes (toLowerCase h pwd) (toLowerCase h (countryName ctx))"
  shows "feedback21 h (Some ctx) pwd =
           Some (hd (filter (\<lambda>country. js_includes (toLowerCase h pwd) country) countries)
                 @ lit '' (Verkeerd land)'')"
proof -
  let ?found = "filter (\<lambda>country. js_includes (toLowerCase h pwd) country) countries"
  have "?found \<noteq> []" using assms(1) by (simp add: filter_empty_conv)
  moreover have "toLowerCase h (countryName ctx) \<notin> set ?found" using assms(2) by simp
  ultimately show ?thesis by (simp add: feedback21_def Let_def)
qed

text \<open>
  Claim C6. With a session context: a candidate that (in lower case) contains one of the
  seven country names but not the name of the target leaves rule 21 unsatisfied and gets a
  non-empty feedback message, the first country found followed by the wrong-country
  notice; a candidate that contains the target's name satisfies the rule and gets no
  feedback; and whenever rule 21 has a feedback entry it is not satisfied.
\<close>

theorem geography_feedback:
  "((\<exists>c \<in> set countries. js_includes (toLowerCase h pwd) c)
      \<and> \<not> js_includes (toLowerCase h pwd) (toLowerCase h (countryName ctx)) \<longrightarrow>
      21 \<notin> fst (evaluate (rules h clk (Some ctx)) (Some ctx) pwd)
      \<and> snd (evaluate (rules h clk (Some ctx)) (Some ctx) pwd) 21
          = Some (hd (filter (\<lambda>country. js_includes (toLowerCase h pwd) country) countries)
                  @ lit '' (Verkeerd land)'')
      \<and> hd (filter (\<lambda>country. js_includes (toLowerCase h pwd) country) countries)
          @ lit '' (Verkeerd land)'' \<noteq> [])
   \<and> (js_includes (toLowerCase h pwd) (toLowerCase h (countryName ctx)) \<longrightarrow>
      21 \<in> fst (evaluate (rules h clk (Some ctx)) (Some ctx) pwd)
      \<and> snd (evaluate (rules h clk (Some ctx)) (Some ctx) pwd) 21 = None)
   \<and> (snd (evaluate (rules h clk (Some ctx)) (Some ctx) pwd) 21 \<noteq> None \<longrightarrow>
      21 \<notin> fst (evaluate (rules h clk (Some ctx)) (Some ctx) pwd))"
proof (intro conjI impI)
  assume a: "(\<exists>c \<in> set countries. js_includes (toLowerCase h pwd) c)
      \<and> \<not> js_includes (toLowerCase h pwd) (toLowerCase h (countryName ctx))"
  then have n: "\<not> rule21 h (Some ctx) pwd" by (simp add: rule21_def)
  have ne: "hd (filter (\<lambda>country. js_includes (toLowerCase h pwd) country) countries)
          @ lit '' (Verkeerd land)'' \<noteq> []"
    by (simp add: lit_def)
  show "21 \<notin> fst (evaluate (rules h clk (Some ctx)) (Some ctx) pwd)"
    using n by (simp only: rule21_satisfied not_False_eq_True)
  show "snd (evaluate (rules h clk (Some ctx)) (Some ctx) pwd) 21
          = Some (hd (filter (\<lambda>country. js_includes (toLowerCase h pwd) country) countries)
                  @ lit '' (Verkeerd land)'')"
    using a n ne by (simp only: rule21_feedback feedback21_wrong_country if_False option.case if_True
        not_False_eq_True)
  show "hd (filter (\<lambda>country. js_includes (toLowerCase h pwd) country) countries)
          @ lit '' (Verkeerd land)'' \<noteq> []"
    by (rule ne)
next
  assume "js_includes (toLowerCase h pwd) (toLowerCase h (countryName ctx))"
  then have y: "rule21 h (Some ctx) pwd" by (simp add: rule21_def)
  show "21 \<in> fst (evaluate (rules h clk (Some ctx)) (Some ctx) pwd)"
    using y by (simp only: rule21_satisfied)
  show "snd (evaluate (rules h clk (Some ctx)) (Some ctx) pwd) 21 = None"
    using y by (simp only: rule21_feedback if_True)
next
  assume "snd (evaluate (rules h clk (Some ctx)) (Some ctx) pwd) 21 \<noteq> None"
  then have "\<not> rule21 h (Some ctx) pwd" unfolding rule21_feedback by (auto split: if_splits)
  then show "21 \<notin> fst (evaluate (rules h clk (Some ctx)) (Some ctx) pwd)"
    by (simp only: rule21_satisfied not_False_eq_True)
qed


theorem geography_feedback_witness:
  "lit ''duitsland'' \<in> set countries
   \<and> js_includes (toLowerCase utc_host (lit ''Duitsland'')) (lit ''duitsland'')
   \<and> \<not> js_includes (toLowerCase utc_host (lit ''Duitsland''))
          (toLowerCase utc_host (countryName sample_context))
   \<and> 21 \<notin> fst (evaluate (rules utc_host (0, 0) (Some sample_context)) (Some sample_context)
                  (lit ''Duitsland''))
   \<and> snd (evaluate (rules utc_host (0, 0) (Some sample_context)) (Some sample_context)
            (lit ''Duitsland'')) 21 = Some (lit ''duitsland (Verkeerd land)'')
   \<and> js_includes (toLowerCase utc_host (lit ''Spanje''))
        (toLowerCase utc_host (countryName sample_context))
   \<and> 21 \<in> fst (evaluate (rules utc_host (0, 0) (Some sample_context)) (Some sample_context)
                  (lit ''Spanje''))
   \<and> snd (evaluate (rules utc_host (0, 0) (Some sample_context)) (Some sample_context)
            (lit ''Spanje'')) 21 = None"
proof -
  have lo: "toLowerCase utc_host (lit ''Duitsland'') = lit ''duitsland''"
    "toLowerCase utc_host (lit ''Spanje'') = lit ''spanje''"
    "toLowerCase utc_host (countryName sample_context) = lit ''spanje''"
    by (simp_all add: utc_host_def ascii_lower_def lit_def sample_context_def)
  have c: "lit ''duitsland'' \<in> set countries" by (simp add: countries_def)
  have i: "js_includes (lit ''duitsland'') (lit ''duitsland'')"
    and n: "\<not> js_includes (lit ''duitsland'') (lit ''spanje'')"
    and y: "js_includes (lit ''spanje'') (lit ''spanje'')"
    by (simp_all add: lit_def)
  have f: "filter (\<lambda>country. js_includes (lit ''duitsland'') country) countries
             = [lit ''duitsland'']"
    by (simp add: countries_def lit_def)
  have e: "\<exists>c \<in> set countries. js_includes (lit ''duitsland'') c" using c i by (rule bexI[rotated])
  have m: "lit ''duitsland'' @ lit '' (Verkeerd land)'' = lit ''duitsland (Verkeerd land)''"
    by (simp add: lit_def)
  note g1 = geography_feedback [of utc_host "lit ''Duitsland''" sample_context "(0, 0)",
      unfolded lo f list.sel m]
  note g2 = geography_feedback [of utc_host "lit ''Spanje''" sample_context "(0, 0)",
      unfolded lo]
  from g1 e n have
    "21 \<notin> fst (evaluate (rules utc_host (0, 0) (Some sample_context)) (Some sample_context)
                  (lit ''Duitsland''))
     \<and> snd (evaluate (rules utc_host (0, 0) (Some sample_context)) (Some sample_context)
            (lit ''Duitsland'')) 21 = Some (lit ''duitsland (Verkeerd land)'')"
    by blast
  moreover from g2 y have
    "21 \<in> fst (evaluate (rules utc_host (0, 0) (Some sample_context)) (Some sample_context)
                  (lit ''Spanje''))
     \<and> snd (evaluate (rules utc_host (0, 0) (Some sample_context)) (Some sample_context)
            (lit ''Spanje'')) 21 = None"
    by blast
  ultimately show ?thesis unfolding lo using c i n y by blast
qed

subsection \<open>The clock and the evaluation\<close>

lemma rule15_in_rules:
  "\<lparr>rule_id = 15, validator = rule15 h clk, requiresLiveData = False,
     validationFeedback = None\<rparr> \<in> set (rules h clk ld)"
  by (simp add: rules_def)

lemma rule15_satisfied:
  "15 \<in> fst (evaluate (rules h clk ld) ld pwd) \<longleftrightarrow> rule15 h clk pwd"
  using evaluate_satisfied[OF rules_distinct[of h clk ld] rule15_in_rules[of h clk ld], of ld pwd]
  by simp

text \<open>Two catalogues that differ in the validator of rule \<open>k\<close> only, a rule without feedback.\<close>

lemma foldl_evaluate_except:
  assumes "list_all2 (\<lambda>r r'. if rule_id r = k
                               then rule_id r' = k \<and> requiresLiveData r = requiresLiveData r'
                                    \<and> validationFeedback r = None \<and> validationFeedback r' = None
                               else r = r') rs rs'"
      and "snd acc = snd acc'" and "fst acc - {k} = fst acc' - {k}"
  shows "snd (foldl (evaluate_rule ld pwd) acc rs) = snd (foldl (evaluate_rule ld pwd) acc' rs')
         \<and> fst (foldl (evaluate_rule ld pwd) acc rs) - {k}
             = fst (foldl (evaluate_rule ld pwd) acc' rs') - {k}"
  using assms
proof (induction rs rs' arbitrary: acc acc' rule: list_all2_induct)
  case Nil
  then show ?case by simp
next
  case (Cons r rs r' rs')
  have "snd (evaluate_rule ld pwd acc r) = snd (evaluate_rule ld pwd acc' r')
        \<and> fst (evaluate_rule ld pwd acc r) - {k} = fst (evaluate_rule ld pwd acc' r') - {k}"
  proof (cases "rule_id r = k")
    case True
    with Cons.hyps(1) have "rule_id r' = k" "validationFeedback r = None"
      "validationFeedback r' = None" by simp_all
    with True Cons.prems show ?thesis by (auto simp: evaluate_rule_def)
  next
    case False
    with Cons.hyps(1) have "r = r'" by simp
    with False Cons.prems show ?thesis
      by (auto simp: evaluate_rule_def split: option.splits)
  qed
  then show ?case unfolding foldl_Cons by (intro Cons.IH) simp_all
qed

lemma rules_differ_in_15:
  "list_all2 (\<lambda>r r'. if rule_id r = 15
                       then rule_id r' = 15 \<and> requiresLiveData r = requiresLiveData r'
                            \<and> validationFeedback r = None \<and> validationFeedback r' = None
                       else r = r') (rules h c1 ld) (rules h c2 ld)"
  by (simp add: rules_def)

lemma evaluate_clock:
  "snd (evaluate (rules h c1 ld) ld pwd) = snd (evaluate (rules h c2 ld) ld pwd)"
  "fst (evaluate (rules h c1 ld) ld pwd) - {15} = fst (evaluate (rules h c2 ld) ld pwd) - {15}"
  using foldl_evaluate_except[OF rules_differ_in_15[of h c1 ld c2],
      where acc = "({}, Map.empty)" and acc' = "({}, Map.empty)" and ld = ld and pwd = pwd]
  by (simp_all add: evaluate_def)

lemma time_examples:
  "rule15 utc_host (0, 0) (lit ''02:00'')"
  "\<not> rule15 utc_host (3600000, 3600000) (lit ''02:00'')"
  "rule15 utc_host (30000, 30000) (lit ''02:00'')"
  by (simp_all add: rule15_def getCurrentTimeGMT2_def getHours_def getMinutes_def utc_host_def
      toString_def toString_nat.simps padStart2_def lit_def Let_def)


text \<open>
  Claim C1, as amended. The evaluation reads the clock, in the validator of rule 15 and
  nowhere else. Two evaluations of the same candidate and session context, whatever the
  mini-game flags and the rest of the state, give the same feedback map and the same
  satisfied ids apart from id 15; they give the same satisfied set whenever the validator of
  rule 15 answers the same at the two clock readings, in particular when both evaluations
  read the same clock.
\<close>

theorem evaluation_deterministic_given_clock:
  assumes "password s1 = password s2" and "liveData s1 = liveData s2"
  shows "feedbackState (evaluation_effect h c1 s1) = feedbackState (evaluation_effect h c2 s2)
     \<and> completedRules (evaluation_effect h c1 s1) - {15}
         = completedRules (evaluation_effect h c2 s2) - {15}
     \<and> (rule15 h c1 (password s1) = rule15 h c2 (password s2) \<longrightarrow>
          completedRules (evaluation_effect h c1 s1) = completedRules (evaluation_effect h c2 s2))
     \<and> (c1 = c2 \<longrightarrow>
          completedRules (evaluation_effect h c1 s1) = completedRules (evaluation_effect h c2 s2))"
proof -
  let ?A = "fst (evaluate (rules h c1 (liveData s2)) (liveData s2) (password s2))"
  let ?B = "fst (evaluate (rules h c2 (liveData s2)) (liveData s2) (password s2))"
  have d: "?A - {15} = ?B - {15}" by (rule evaluate_clock)
  have m: "15 \<in> ?A \<longleftrightarrow> rule15 h c1 (password s2)" "15 \<in> ?B \<longleftrightarrow> rule15 h c2 (password s2)"
    by (rule rule15_satisfied)+
  have eq: "?A = ?B" if "rule15 h c1 (password s2) = rule15 h c2 (password s2)"
  proof -
    from that m have "15 \<in> ?A \<longleftrightarrow> 15 \<in> ?B" by simp
    with d show ?thesis by blast
  qed
  show ?thesis
    unfolding effect_completed effect_feedback assms
    using d eq evaluate_clock(1)[of h c1 "liveData s2" "password s2" c2] by auto
qed

theorem evaluation_deterministic_given_clock_witness:
  "password (initialState\<lparr>password := lit ''02:00''\<rparr>)
     = password (initialState\<lparr>password := lit ''02:00'', wordrowCompleted := True\<rparr>)
   \<and> liveData (initialState\<lparr>password := lit ''02:00''\<rparr>)
     = liveData (initialState\<lparr>password := lit ''02:00'', wordrowCompleted := True\<rparr>)
   \<and> rule15 utc_host (0, 0) (lit ''02:00'') = rule15 utc_host (30000, 30000) (lit ''02:00'')
   \<and> feedbackState (evaluation_effect utc_host (0, 0) (initialState\<lparr>password := lit ''02:00''\<rparr>))
     = feedbackState (evaluation_effect utc_host (30000, 30000)
         (initialState\<lparr>password := lit ''02:00'', wordrowCompleted := True\<rparr>))
   \<and> completedRules (evaluation_effect utc_host (0, 0) (initialState\<lparr>password := lit ''02:00''\<rparr>))
     = completedRules (evaluation_effect utc_host (30000, 30000)
         (initialState\<lparr>password := lit ''02:00'', wordrowCompleted := True\<rparr>))"
proof -
  have p: "password (initialState\<lparr>password := lit ''02:00''\<rparr>)
     = password (initialState\<lparr>password := lit ''02:00'', wordrowCompleted := True\<rparr>)"
    and l: "liveData (initialState\<lparr>password := lit ''02:00''\<rparr>)
     = liveData (initialState\<lparr>password := lit ''02:00'', wordrowCompleted := True\<rparr>)"
    by simp_all
  have r: "rule15 utc_host (0, 0) (lit ''02:00'') = rule15 utc_host (30000, 30000) (lit ''02:00'')"
    using time_examples(1,3) by simp
  from evaluation_deterministic_given_clock [OF p l, of utc_host "(0, 0)" "(30000, 30000)"] r p l
  show ?thesis by simp
qed

text \<open>
  The claim as stated fails: the same candidate, context and flags evaluated at 00:00 UTC
  and one hour later differ on rule 15.
\<close>

theorem evaluation_not_deterministic:
  "15 \<in> completedRules (evaluation_effect utc_host (0, 0)
            (initialState\<lparr>password := lit ''02:00''\<rparr>))
   \<and> 15 \<notin> completedRules (evaluation_effect utc_host (3600000, 3600000)
            (initialState\<lparr>password := lit ''02:00''\<rparr>))"
  by (simp add: effect_completed rule15_satisfied time_examples)

subsection \<open>Rejected guesses\<close>

lemma rejection_not_empty: "rejection \<noteq> []"
  by (simp add: rejection_def lit_def)

lemma lookup_failure_invalid:
  "\<not> checkDutchWord h word Failed" "\<not> checkDutchWord h word (Parsed None)"
  by (simp_all add: checkDutchWord_def)

lemma invalid_guess_state:
  "\<not> checkDutchWord h (toUpperCase h guess) resp \<Longrightarrow>
   handleWordleGuess h resp guess st
     = st\<lparr>wordleError := wordleError (handleWordleGuess h resp guess st)\<rparr>"
  by (simp add: handleWordleGuess_def Let_def split: option.splits)

text \<open>
  Claim C7. A five-letter guess that reaches the dictionary (a session context exists and
  the round is not over) and that the dictionary reports invalid changes nothing but the
  rejection reason, which is set to a non-empty message: the guess list and the rest of the
  round state are as before. A lookup that fails counts as invalid. Whenever the
  dictionary's verdict is invalid, also outside those conditions, the state apart from the
  rejection reason is unchanged.
\<close>

theorem invalid_guess_rejected:
  "(length guess = 5 \<and> liveData st \<noteq> None \<and> \<not> gameOver (wordleState st)
      \<and> \<not> checkDutchWord h (toUpperCase h guess) resp \<longrightarrow>
      handleWordleGuess h resp guess st = st\<lparr>wordleError := rejection\<rparr>
      \<and> guesses (wordleState (handleWordleGuess h resp guess st)) = guesses (wordleState st)
      \<and> wordleState (handleWordleGuess h resp guess st) = wordleState st
      \<and> wordleError (handleWordleGuess h resp guess st) = rejection)
   \<and> rejection \<noteq> []
   \<and> \<not> checkDutchWord h (toUpperCase h guess) Failed
   \<and> (\<not> checkDutchWord h (toUpperCase h guess) resp \<longrightarrow>
        handleWordleGuess h resp guess st
          = st\<lparr>wordleError := wordleError (handleWordleGuess h resp guess st)\<rparr>)"
proof (intro conjI impI)
  assume a: "length guess = 5 \<and> liveData st \<noteq> None \<and> \<not> gameOver (wordleState st)
      \<and> \<not> checkDutchWord h (toUpperCase h guess) resp"
  then obtain ld where ld: "liveData st = Some ld" by auto
  from a ld show e: "handleWordleGuess h resp guess st = st\<lparr>wordleError := rejection\<rparr>"
    by (simp add: handleWordleGuess_def Let_def)
  show "guesses (wordleState (handleWordleGuess h resp guess st)) = guesses (wordleState st)"
    and "wordleState (handleWordleGuess h resp guess st) = wordleState st"
    and "wordleError (handleWordleGuess h resp guess st) = rejection"
    unfolding e by simp_all
next
  show "rejection \<noteq> []" by (rule rejection_not_empty)
  show "\<not> checkDutchWord h (toUpperCase h guess) Failed" by (rule lookup_failure_invalid)
next
  assume "\<not> checkDutchWord h (toUpperCase h guess) resp"
  then show "handleWordleGuess h resp guess st
          = st\<lparr>wordleError := wordleError (handleWordleGuess h resp guess st)\<rparr>"
    by (rule invalid_guess_state)
qed

theorem invalid_guess_rejected_witness:
  "length (lit ''xyzzy'') = 5
   \<and> liveData (dataLoaded sample_context initialState) \<noteq> None
   \<and> \<not> gameOver (wordleState (dataLoaded sample_context initialState))
   \<and> \<not> checkDutchWord utc_host (toUpperCase utc_host (lit ''xyzzy''))
          (Parsed (Some [Object (Text (lit ''xyz''))]))
   \<and> handleWordleGuess utc_host (Parsed (Some [Object (Text (lit ''xyz''))])) (lit ''xyzzy'')
        (dataLoaded sample_context initialState)
       = (dataLoaded sample_context initialState)\<lparr>wordleError := rejection\<rparr>
   \<and> guesses (wordleState (handleWordleGuess utc_host (Parsed (Some [Object (Text (lit ''xyz''))]))
        (lit ''xyzzy'') (dataLoaded sample_context initialState))) = []"
proof -
  have l: "length (lit ''xyzzy'') = 5" by (simp add: lit_def)
  have d: "liveData (dataLoaded sample_context initialState) \<noteq> None"
    and g: "\<not> gameOver (wordleState (dataLoaded sample_context initialState))"
    and e: "guesses (wordleState (dataLoaded sample_context initialState)) = []"
    by (simp_all add: dataLoaded_def initialWordleState_def)
  have c: "\<not> checkDutchWord utc_host (toUpperCase utc_host (lit ''xyzzy''))
          (Parsed (Some [Object (Text (lit ''xyz''))]))"
    by (simp add: checkDutchWord_def utc_host_def ascii_lower_def ascii_upper_def lit_def)
  from invalid_guess_rejected [of "lit ''xyzzy''" "dataLoaded sample_context initialState"
      utc_host "Parsed (Some [Object (Text (lit ''xyz''))])"] l d g c e
  show ?thesis by simp
qed

subsection \<open>Refreshing the session context\<close>

lemma pick_in_set: "xs \<noteq> [] \<Longrightarrow> pick xs draw \<in> set xs"
  by (simp add: pick_def)

text \<open>
  Claim C9. A refresh with a session context present replaces, in the context, the country
  code, country name and imagery URL (those of one entry of the location table), the
  arithmetic puzzle, the temperature and the target word, and nothing else: the day of the
  year, the day of the week, the zodiac symbol, the moon phase, the chess move and the chess
  position are as before. It resets the word-guessing round and its rejection reason and
  leaves the candidate, the satisfied rules, the visible count and the completion flag
  alone.
\<close>

theorem refresh_frame:
  "liveData st = Some ld \<longrightarrow>
     (\<exists>ld'. liveData (handleRefreshData temp dl dw dp st) = Some ld'
        \<and> ld' = ld\<lparr>countryCode := code (pick locations dl),
                   countryName := name (pick locations dl),
                   streetViewUrl := url (pick locations dl),
                   mathProblem := pick problems dp,
                   temperature := temp,
                   wordleWord := pick (filter (\<lambda>word. length word = 5) validDutchWords) dw\<rparr>
        \<and> dayOfYear ld' = dayOfYear ld \<and> dayOfWeek ld' = dayOfWeek ld
        \<and> zodiacSymbol ld' = zodiacSymbol ld \<and> moonPhase ld' = moonPhase ld
        \<and> chessMove ld' = chessMove ld \<and> chessPosition ld' = chessPosition ld
        \<and> pick locations dl \<in> set locations \<and> pick problems dp \<in> set problems
        \<and> wordleWord ld' \<in> set validDutchWords \<and> length (wordleWord ld') = 5)
     \<and> wordleState (handleRefreshData temp dl dw dp st) = initialWordleState
     \<and> wordleError (handleRefreshData temp dl dw dp st) = []
     \<and> password (handleRefreshData temp dl dw dp st) = password st
     \<and> completedRules (handleRefreshData temp dl dw dp st) = completedRules st
     \<and> feedbackState (handleRefreshData temp dl dw dp st) = feedbackState st
     \<and> maxVisibleRule (handleRefreshData temp dl dw dp st) = maxVisibleRule st
     \<and> gameComplete (handleRefreshData temp dl dw dp st) = gameComplete st
     \<and> wordrowCompleted (handleRefreshData temp dl dw dp st) = wordrowCompleted st"
proof
  assume ld: "liveData st = Some ld"
  let ?five = "filter (\<lambda>word. length word = 5) validDutchWords"
  have five: "?five \<noteq> []" by (simp add: validDutchWords_def lit_def)
  have w: "pick ?five dw \<in> set ?five" using five by (rule pick_in_set)
  have l: "pick locations dl \<in> set locations" by (rule pick_in_set) (simp add: locations_def)
  have p: "pick problems dp \<in> set problems" by (rule pick_in_set) (simp add: problems_def)
  show "(\<exists>ld'. liveData (handleRefreshData temp dl dw dp st) = Some ld'
        \<and> ld' = ld\<lparr>countryCode := code (pick locations dl),
                   countryName := name (pick locations dl),
                   streetViewUrl := url (pick locations dl),
                   mathProblem := pick problems dp,
                   temperature := temp,
                   wordleWord := pick (filter (\<lambda>word. length word = 5) validDutchWords) dw\<rparr>
        \<and> dayOfYear ld' = dayOfYear ld \<and> dayOfWeek ld' = dayOfWeek ld
        \<and> zodiacSymbol ld' = zodiacSymbol ld \<and> moonPhase ld' = moonPhase ld
        \<and> chessMove ld' = chessMove ld \<and> chessPosition ld' = chessPosition ld
        \<and> pick locations dl \<in> set locations \<and> pick problems dp \<in> set problems
        \<and> wordleWord ld' \<in> set validDutchWords \<and> length (wordleWord ld') = 5)
     \<and> wordleState (handleRefreshData temp dl dw dp st) = initialWordleState
     \<and> wordleError (handleRefreshData temp dl dw dp st) = []
     \<and> password (handleRefreshData temp dl dw dp st) = password st
     \<and> completedRules (handleRefreshData temp dl dw dp st) = completedRules st
     \<and> feedbackState (handleRefreshData temp dl dw dp st) = feedbackState st
     \<and> maxVisibleRule (handleRefreshData temp dl dw dp st) = maxVisibleRule st
     \<and> gameComplete (handleRefreshData temp dl dw dp st) = gameComplete st
     \<and> wordrowCompleted (handleRefreshData temp dl dw dp st) = wordrowCompleted st"
    using ld w l p by (simp add: handleRefreshData_def Let_def)
qed


theorem refresh_frame_witness:
  "liveData (dataLoaded sample_context initialState) = Some sample_context
   \<and> liveData (handleRefreshData 18 1 2 3 (dataLoaded sample_context initialState))
       = Some (sample_context\<lparr>countryCode := lit ''DE'', countryName := lit ''duitsland'',
                 streetViewUrl := url (locations ! 1), mathProblem := problems ! 3,
                 temperature := 18, wordleWord := lit ''GROEN''\<rparr>)
   \<and> dayOfYear sample_context = 64 \<and> chessMove sample_context = lit ''Qb5+''
   \<and> wordleState (handleRefreshData 18 1 2 3 (dataLoaded sample_context initialState))
       = initialWordleState"
proof -
  have l: "liveData (dataLoaded sample_context initialState) = Some sample_context"
    by (simp add: dataLoaded_def)
  have pl: "pick locations 1 = locations ! 1" by (simp add: pick_def locations_def)
  have pp: "pick problems 3 = problems ! 3" by (simp add: pick_def problems_def)
  have pw: "pick (filter (\<lambda>word. length word = 5) validDutchWords) 2 = lit ''GROEN''"
    by (simp add: pick_def validDutchWords_def lit_def)
  have c: "code (locations ! 1) = lit ''DE''" "name (locations ! 1) = lit ''duitsland''"
    by (simp_all add: locations_def)
  have s: "dayOfYear sample_context = 64" "chessMove sample_context = lit ''Qb5+''"
    by (simp_all add: sample_context_def)
  from refresh_frame [of "dataLoaded sample_context initialState" sample_context 18 1 2 3] l
  show ?thesis unfolding pl pp pw c using s by simp
qed

subsection \<open>Proofs for the completion flag\<close>

lemma winning_codes:
  "winning =
      [81, 98, 53, 43, 72, 101, 54, 52, 109, 101, 105, 48, 50, 58, 48, 48, 119, 105, 116, 57,
       57, 57, 54, 103, 101, 101, 115, 116, 65, 65, 65, 65, 65, 116, 111, 109, 111, 114, 114,
       111, 119, 108, 97, 110, 100, 88, 88, 88, 86, 118, 101, 114, 107, 101, 101, 114, 100,
       101, 9809, 55356, 57109, 115, 112, 97, 110, 106, 101]"
  by (simp add: winning_def lit_def)

lemma winning_lower:
  "toLowerCase utc_host winning =
      [113, 98, 53, 43, 104, 101, 54, 52, 109, 101, 105, 48, 50, 58, 48, 48, 119, 105, 116,
       57, 57, 57, 54, 103, 101, 101, 115, 116, 97, 97, 97, 97, 97, 116, 111, 109, 111, 114,
       114, 111, 119, 108, 97, 110, 100, 120, 120, 120, 118, 118, 101, 114, 107, 101, 101, 114,
       100, 101, 9809, 55356, 57109, 115, 112, 97, 110, 106, 101]"
  by (simp add: winning_codes utc_host_def ascii_lower_def)

lemma winning_length: "length winning = 67"
  by (simp add: winning_codes)

lemma winning_1_5: "rule1 winning" "rule2 winning" "rule3 winning" "rule4 winning" "rule5 winning"
  by (simp_all add: winning_codes rule1_def rule2_def rule3_def rule4_def rule5_def
      is_capital_def is_special_def is_space_def is_digit_def)

lemma winning_6: "rule6 utc_host winning"
proof -
  have "lit ''mei'' \<in> set months" by (simp add: months_def)
  moreover have "js_includes (toLowerCase utc_host winning) (lit ''mei'')"
    by (simp add: winning_lower lit_def)
  ultimately show ?thesis unfolding rule6_def list_ex_iff by (rule bexI[rotated])
qed

lemma winning_7: "rule7 winning"
  by (simp add: winning_codes rule7_def is_digit_def parseInt_digit_def)

lemma toString_examples: "toString 64 = lit ''64''" "toString 4 = lit ''4''"
  "toString 2 = lit ''2''" "toString 0 = lit ''0''" "toString 1 = lit ''1''"
  by (simp_all add: toString_def toString_nat.simps lit_def)

lemma winning_8_12:
  "rule8 (Some sample_context) winning" "rule9 (Some sample_context) winning"
  "rule10 winning"
  "rule11 (Some sample_context) winning" "rule12 (Some sample_context) winning"
proof -
  have i: "js_includes winning (lit ''64'')" "js_includes winning (lit ''4'')"
    "js_includes winning [9809]" "js_includes winning [55356, 57109]"
    by (simp_all add: winning_codes lit_def)
  show "rule8 (Some sample_context) winning" "rule9 (Some sample_context) winning"
    "rule11 (Some sample_context) winning" "rule12 (Some sample_context) winning"
    using i by (simp_all add: rule8_def rule9_def rule11_def rule12_def sample_context_def
      toString_examples)
  show "rule10 winning" by (simp add: rule10_def winning_codes is_digit_def)
qed

lemma winning_13: "rule13 winning"
proof -
  have "lit ''He'' \<in> set elements" by (simp add: elements_def)
  moreover have "js_includes winning (lit ''He'')" by (simp add: winning_codes lit_def)
  ultimately show ?thesis unfolding rule13_def list_ex_iff by (rule bexI[rotated])
qed

lemma winning_14: "rule14 winning"
proof -
  have "maximal_run is_roman winning (lit ''XXXV'')"
    by (rule maximal_runI[of _ "lit ''Qb5+He64mei02:00wit9996geestAAAAAtomorrowland''" _
          "lit ''verkeerde'' @ [9809, 55356, 57109] @ lit ''spanje''"])
      (simp_all add: winning_def lit_def is_roman_iff)
  then show ?thesis unfolding rule14_iff using valueOf_examples(1) by blast
qed

lemma winning_15: "rule15 utc_host (0, 0) winning"
proof -
  have "getCurrentTimeGMT2 utc_host 0 = lit ''02:00''"
    by (simp add: getCurrentTimeGMT2_def getHours_def getMinutes_def utc_host_def
      toString_def toString_nat.simps padStart2_def lit_def Let_def)
  moreover have "js_includes winning (lit ''02:00'')" by (simp add: winning_codes lit_def)
  ultimately show ?thesis by (simp add: rule15_def Let_def)
qed

lemma winning_16_20:
  "rule16 utc_host winning" "rule17 utc_host winning" "rule19 winning" "rule20 utc_host winning"
  by (simp_all add: rule16_def rule17_def rule19_def rule20_def winning_lower)
     (simp_all add: winning_codes lit_def)

lemma winning_18: "rule18 utc_host winning"
proof -
  have "lit ''wit'' \<in> set colors" by (simp add: colors_def)
  moreover have "js_includes (toLowerCase utc_host winning) (lit ''wit'')"
    by (simp add: winning_lower lit_def)
  ultimately show ?thesis unfolding rule18_def list_ex_iff by (rule bexI[rotated])
qed

lemma winning_21: "rule21 utc_host (Some sample_context) winning"
proof -
  have "toLowerCase utc_host (countryName sample_context) = lit ''spanje''"
    by (simp add: sample_context_def utc_host_def ascii_lower_def lit_def)
  moreover have "js_includes (toLowerCase utc_host winning) (lit ''spanje'')"
    by (simp add: winning_lower lit_def)
  ultimately show ?thesis by (simp add: rule21_def)
qed

lemma winning_22_23:
  "rule22 (Some sample_context) winning" "rule23 (Some sample_context) winning"
proof -
  have "js_includes winning (lit ''Qb5+'')" "js_includes winning (lit ''4'')"
    by (simp_all add: winning_codes lit_def)
  then show "rule22 (Some sample_context) winning" "rule23 (Some sample_context) winning"
    by (simp_all add: rule22_def rule23_def sample_context_def toString_examples)
qed

lemma winning_24: "rule24 winning"
proof -
  have "filter is_capital winning = [81, 72, 65, 65, 65, 65, 65, 88, 88, 88, 86]"
    by (simp add: winning_codes is_capital_def)
  moreover have "filter is_digit winning = [53, 54, 52, 48, 50, 48, 48, 57, 57, 57, 54]"
    by (simp add: winning_codes is_digit_def)
  ultimately show ?thesis by (simp add: rule24_def)
qed

lemma prime_loop_67: "prime_loop 67 2"
  by (simp add: prime_loop.simps)

lemma winning_25: "rule25 winning"
  by (simp add: rule25_def winning_length prime_loop_67)


lemma winning_all:
  "list_all (\<lambda>r. validator r winning) (rules utc_host (0, 0) (Some sample_context))"
  by (simp add: rules_def winning_1_5 winning_6 winning_7 winning_8_12 winning_13 winning_14
      winning_15 winning_16_20 winning_18 winning_21 winning_22_23 winning_24 winning_25)

lemma evaluate_ids: "fst (evaluate rs ld pwd) \<subseteq> rule_id ` set rs"
  unfolding evaluate_def foldl_evaluate_fst
  by (auto simp: evaluate_rule_def split: if_splits option.splits)

lemma evaluate_all_satisfied:
  assumes "list_all (\<lambda>r. validator r pwd) rs"
  shows "fst (evaluate rs (Some ctx) pwd) = rule_id ` set rs"
proof -
  have "fst (evaluate_rule (Some ctx) pwd ({}, Map.empty) r) = {rule_id r}" if "r \<in> set rs" for r
    using assms that by (simp add: evaluate_rule_def list_all_iff)
  then show ?thesis unfolding evaluate_def foldl_evaluate_fst by auto
qed

lemma card_rule_ids: "card (rule_id ` set (rules h clk ld)) = 25"
proof -
  have "rule_id ` set (rules h clk ld) = set (map rule_id (rules h clk ld))" by simp
  also have "card \<dots> = length (map rule_id (rules h clk ld))"
    using rules_distinct by (rule distinct_card)
  finally show ?thesis by (simp add: length_rules)
qed

lemma winning_card:
  "card (fst (evaluate (rules utc_host (0, 0) (Some sample_context)) (Some sample_context) winning))
     = 25"
  unfolding evaluate_all_satisfied[OF winning_all] by (rule card_rule_ids)

lemma effect_gameComplete:
  "gameComplete (evaluation_effect h clk st) \<longleftrightarrow>
     gameComplete st
     \<or> card (fst (evaluate (rules h clk (liveData st)) (liveData st) (password st))) = 25"
  by (simp add: evaluation_effect_def Let_def length_rules)

lemma perform_keeps_gameComplete: "gameComplete st \<Longrightarrow> gameComplete (perform h a st)"
proof (cases a)
  case (WordleGuess resp guess)
  assume "gameComplete st"
  then show ?thesis unfolding WordleGuess
    by (simp add: handleWordleGuess_def Let_def split: option.splits)
next
  case (RefreshData temp dl dw dp)
  assume "gameComplete st"
  then show ?thesis unfolding RefreshData
    by (simp add: handleRefreshData_def Let_def split: option.splits)
next
  case (Effect clk)
  assume "gameComplete st"
  then show ?thesis unfolding Effect by (simp add: effect_gameComplete)
qed (simp_all add: dataLoaded_def resetWordleGame_def)

lemma perform_all_keeps_gameComplete:
  "gameComplete st \<Longrightarrow> gameComplete (perform_all h as st)"
  by (induction as arbitrary: st) (simp_all add: perform_keeps_gameComplete)

lemma all_ids_card:
  assumes "\<forall>i \<in> {1..25}. i \<in> fst (evaluate (rules h clk ld) ld pwd)"
  shows "card (fst (evaluate (rules h clk ld) ld pwd)) = 25"
proof -
  have "rule_id ` set (rules h clk ld) = set (map rule_id (rules h clk ld))" by simp
  also have "\<dots> = {1..25}" unfolding rules_ids by auto
  finally have ids: "rule_id ` set (rules h clk ld) = {1..25}" .
  have "fst (evaluate (rules h clk ld) ld pwd) \<subseteq> {1..25}"
    using evaluate_ids[of "rules h clk ld" ld pwd] unfolding ids .
  moreover have "{1..25} \<subseteq> fst (evaluate (rules h clk ld) ld pwd)" using assms by blast
  ultimately have "fst (evaluate (rules h clk ld) ld pwd) = {1..25}" by (rule equalityI)
  then show ?thesis by simp
qed

text \<open>
  Claim C10. The completion flag is a latch. An evaluation that finds all 25 rules
  satisfied (the satisfied set has 25 elements, which is the case exactly when it holds the
  ids 1 to 25) sets the flag; and once the flag is set, no sequence of events of the
  session (edits of the candidate, also to the empty string, refreshes, guesses, further
  evaluations) clears it.
\<close>

theorem completion_latch:
  "(gameComplete st \<longrightarrow> gameComplete (perform_all h as st))
   \<and> (card (fst (evaluate (rules h clk (liveData st)) (liveData st) (password st))) = 25
        \<longrightarrow> gameComplete (evaluation_effect h clk st))
   \<and> ((\<forall>i \<in> {1..25}. i \<in> completedRules (evaluation_effect h clk st))
        \<longrightarrow> gameComplete (evaluation_effect h clk st))"
proof (intro conjI impI)
  assume "gameComplete st"
  then show "gameComplete (perform_all h as st)" by (rule perform_all_keeps_gameComplete)
next
  assume "card (fst (evaluate (rules h clk (liveData st)) (liveData st) (password st))) = 25"
  then show "gameComplete (evaluation_effect h clk st)" by (simp add: effect_gameComplete)
next
  assume "\<forall>i \<in> {1..25}. i \<in> completedRules (evaluation_effect h clk st)"
  then have "card (fst (evaluate (rules h clk (liveData st)) (liveData st) (password st))) = 25"
    unfolding effect_completed by (rule all_ids_card)
  then show "gameComplete (evaluation_effect h clk st)" by (simp add: effect_gameComplete)
qed

lemma rule1_in_rules:
  "\<lparr>rule_id = 1, validator = rule1, requiresLiveData = False,
     validationFeedback = None\<rparr> \<in> set (rules h clk ld)"
  by (simp add: rules_def)

lemma rule1_satisfied:
  "1 \<in> fst (evaluate (rules h clk ld) ld pwd) \<longleftrightarrow> rule1 pwd"
  using evaluate_satisfied[OF rules_distinct[of h clk ld] rule1_in_rules[of h clk ld], of ld pwd]
  by simp

theorem completion_latch_witness:
  "card (fst (evaluate (rules utc_host (0, 0) (Some sample_context)) (Some sample_context) winning))
     = 25
   \<and> gameComplete (perform_all utc_host
        [DataLoaded sample_context, SetPassword winning, Effect (0, 0)] initialState)
   \<and> gameComplete (perform_all utc_host [SetPassword [], Effect (0, 0)]
        (perform_all utc_host
           [DataLoaded sample_context, SetPassword winning, Effect (0, 0)] initialState))
   \<and> 1 \<notin> completedRules (perform_all utc_host [SetPassword [], Effect (0, 0)]
        (perform_all utc_host
           [DataLoaded sample_context, SetPassword winning, Effect (0, 0)] initialState))"
proof -
  define stW where "stW = (dataLoaded sample_context initialState)\<lparr>password := winning\<rparr>"
  define st1 where "st1 = evaluation_effect utc_host (0, 0) stW"
  have run1: "perform_all utc_host
        [DataLoaded sample_context, SetPassword winning, Effect (0, 0)] initialState = st1"
    by (simp add: st1_def stW_def)
  have w: "liveData stW = Some sample_context" "password stW = winning"
    by (simp_all add: stW_def dataLoaded_def)
  have c: "card (fst (evaluate (rules utc_host (0, 0) (liveData stW)) (liveData stW)
             (password stW))) = 25"
    unfolding w by (rule winning_card)
  have g1: "gameComplete st1"
    unfolding st1_def using completion_latch [of stW utc_host "[]" "(0, 0)"] c by blast
  have g2: "gameComplete (perform_all utc_host [SetPassword [], Effect (0, 0)] st1)"
    using completion_latch [of st1 utc_host "[SetPassword [], Effect (0, 0)]" "(0, 0)"] g1
    by blast
  have "1 \<notin> fst (evaluate (rules utc_host (0, 0) (liveData st1)) (liveData st1) [])"
    unfolding rule1_satisfied by (simp add: rule1_def)
  then have n: "1 \<notin> completedRules (perform_all utc_host [SetPassword [], Effect (0, 0)] st1)"
    by (simp add: effect_completed)
  show ?thesis unfolding run1 using winning_card g1 g2 n by (intro conjI)
qed

end
